theory Spec2Isabelle
  imports Main "HOL-Library.Sublist" "HOL-Library.Code_Target_Nat" "HOL-Library.Word"
begin

section \<open>The members of std::string used by insertIncludes\<close>

text \<open>
  A \<open>std::string\<close> is a \<open>string\<close> (a list of bytes); a \<open>std::string::size_type\<close> is a
  \<open>nat\<close>, and \<open>std::string::npos\<close> is the largest value of the 64-bit \<open>size_type\<close>.
  Positions that the searches return are below the size of the string, so the sums
  \<open>pos + 7\<close> and \<open>pos + 8\<close> and the differences \<open>end_of_line - pos\<close> and
  \<open>code.size() - pos\<close> of the source never leave the range of \<open>size_type\<close>; the two
  decrements of \<open>num_characters\<close> can, and are written with the wrap-around.
\<close>

definition npos :: nat where
  "npos = 2 ^ 64 - 1"

definition LF :: char where "LF = CHR 0x0A"
definition CR :: char where "CR = CHR 0x0D"
definition TAB :: char where "TAB = CHR 0x09"
definition SPC :: char where "SPC = CHR 0x20"
definition DQUOTE :: char where "DQUOTE = CHR 0x22"

text \<open>The index of the first suffix of a string that satisfies \<open>P\<close>.\<close>

fun first_index :: "(string \<Rightarrow> bool) \<Rightarrow> string \<Rightarrow> nat option" where
  "first_index P [] = None"
| "first_index P (c # cs) = (if P (c # cs) then Some 0 else map_option Suc (first_index P cs))"

definition found_from :: "nat \<Rightarrow> nat option \<Rightarrow> nat" where
  "found_from pos r = (case r of None \<Rightarrow> npos | Some i \<Rightarrow> pos + i)"

text \<open>\<open>code.find(pat, pos)\<close>, for a pattern that is not empty.\<close>

definition find_str :: "string \<Rightarrow> string \<Rightarrow> nat \<Rightarrow> nat" where
  "find_str code pat pos = found_from pos (first_index (prefix pat) (drop pos code))"

text \<open>\<open>code.find_first_of(chars, pos)\<close> and \<open>code.find_first_not_of(chars, pos)\<close>.\<close>

definition find_first_of :: "string \<Rightarrow> string \<Rightarrow> nat \<Rightarrow> nat" where
  "find_first_of code chars pos =
     found_from pos (first_index (\<lambda>s. hd s \<in> set chars) (drop pos code))"

definition find_first_not_of :: "string \<Rightarrow> string \<Rightarrow> nat \<Rightarrow> nat" where
  "find_first_not_of code chars pos =
     found_from pos (first_index (\<lambda>s. hd s \<notin> set chars) (drop pos code))"

text \<open>\<open>code[i]\<close>: the byte at \<open>i\<close>, and the terminating zero at \<open>i = code.size()\<close>.\<close>

definition char_at :: "string \<Rightarrow> nat \<Rightarrow> char" where
  "char_at code i = (if i < length code then code ! i else CHR 0x00)"

text \<open>\<open>std::string(code, pos, n)\<close> and \<open>code.compare(pos, n, s) == 0\<close>, for \<open>pos \<le> code.size()\<close>.\<close>

definition substr :: "string \<Rightarrow> nat \<Rightarrow> nat \<Rightarrow> string" where
  "substr code pos n = take n (drop pos code)"

definition compare_eq :: "string \<Rightarrow> nat \<Rightarrow> nat \<Rightarrow> string \<Rightarrow> bool" where
  "compare_eq code pos n s = (substr code pos n = s)"

text \<open>\<open>code.erase(pos, n)\<close> and \<open>code.insert(pos, s); pos += s.size()\<close>.\<close>

definition erase :: "string \<Rightarrow> nat \<Rightarrow> nat \<Rightarrow> string" where
  "erase code pos n = take pos code @ drop (pos + n) code"

definition insert_adv :: "string \<times> nat \<Rightarrow> string \<Rightarrow> string \<times> nat" where
  "insert_adv cp s = (case cp of (code, pos) \<Rightarrow> (take pos code @ s @ drop pos code, pos + length s))"

text \<open>Subtraction of \<open>size_type\<close> values: modulo \<open>2 ^ 64\<close>.\<close>

definition sub_sz :: "nat \<Rightarrow> nat \<Rightarrow> nat" where
  "sub_sz a b = (a + 2 ^ 64 - b) mod 2 ^ 64"

section \<open>insertIncludes\<close>

datatype platform = Apple | Win32 | Other

fun endOfLine :: "platform \<Rightarrow> string" where
  "endOfLine Apple = [CR]"
| "endOfLine Win32 = [CR, LF]"
| "endOfLine Other = [LF]"

definition startOfIncludeMarker :: string where
  "startOfIncludeMarker = ''// Start of include code : ''"

definition endOfIncludeMarker :: string where
  "endOfIncludeMarker = ''// End of include code : ''"

definition failedLoadMarker :: string where
  "failedLoadMarker = ''// Failed to load include code : ''"

text \<open>
  The condition of the \<open>while\<close> loop (line 165). The search for \<open>#include\<close> is the right
  operand of \<open>||\<close>: it runs, and assigns \<open>include_pos\<close>, only when no \<open>#pragma\<close> was found.
  The result is the pair \<open>(pragma_pos, include_pos)\<close> with which the body runs, or \<open>None\<close>
  when the loop ends.
\<close>

definition loop_cond :: "string \<Rightarrow> nat \<Rightarrow> nat \<Rightarrow> (nat \<times> nat) option" where
  "loop_cond code pos include_pos =
     (if pos = npos then None
      else let pragma_pos = find_str code ''#pragma'' pos in
        if pragma_pos \<noteq> npos then Some (pragma_pos, include_pos)
        else let include_pos = find_str code ''#include'' pos in
          if include_pos \<noteq> npos then Some (pragma_pos, include_pos) else None)"

text \<open>Line 167: the position of the occurrence that the iteration processes.\<close>

definition directive_pos :: "nat \<times> nat \<Rightarrow> nat" where
  "directive_pos pi = (case pi of (pragma_pos, include_pos) \<Rightarrow>
     if pragma_pos \<noteq> npos then pragma_pos else include_pos)"

text \<open>
  Lines 172 to 194: from the directive token to the start of the file name. The loop is
  left (\<open>break\<close>), resumed at another position (\<open>continue\<close>), or goes on at the file name.
\<close>

datatype skipped = SBreak | SContinue nat | FilenameAt nat

definition skip_directive :: "string \<Rightarrow> nat \<Rightarrow> nat \<Rightarrow> nat \<Rightarrow> skipped" where
  "skip_directive code pragma_pos pos end_of_line =
     (if pragma_pos \<noteq> npos then
        (let pos = find_first_not_of code [SPC, TAB] (pos + 7) in
         if pos = npos then SBreak
         else if \<not> compare_eq code pos 7 ''include'' then SContinue end_of_line
         else let pos = find_first_not_of code [SPC, TAB] (pos + 7) in
           if pos = npos then SBreak else FilenameAt pos)
      else
        (let pos = find_first_not_of code [SPC, TAB] (pos + 8) in
         if pos = npos then SBreak else FilenameAt pos))"

text \<open>Line 200: prune trailing white space.\<close>

fun prune :: "string \<Rightarrow> nat \<Rightarrow> nat \<Rightarrow> nat" where
  "prune code pos 0 = 0"
| "prune code pos (Suc n) =
     (if char_at code (pos + Suc n - 1) = SPC \<or> char_at code (pos + Suc n - 1) = TAB
      then prune code pos n else Suc n)"

text \<open>Lines 202 to 214: the quotes; the result is the new \<open>(pos, num_characters)\<close>.\<close>

definition unquote :: "string \<Rightarrow> nat \<Rightarrow> nat \<Rightarrow> nat \<times> nat" where
  "unquote code pos num_characters =
     (if char_at code pos = DQUOTE then
        (pos + 1,
         if char_at code (pos + num_characters - 1) \<noteq> DQUOTE
         then sub_sz num_characters 1 else sub_sz num_characters 2)
      else (pos, num_characters))"

text \<open>
  Lines 218 to 258: the directive line is erased and the markers and the fragment are
  inserted. \<open>ld\<close> is \<open>vsg::read_cast<ShaderModule>(filename, options)\<close>, which is not
  part of this file: it gives the \<open>source\<close> of the module that it loads, or \<open>None\<close>
  for a null pointer.
\<close>

definition splice ::
  "platform \<Rightarrow> (string \<Rightarrow> string option) \<Rightarrow> string \<Rightarrow> nat \<Rightarrow> nat \<Rightarrow> string \<Rightarrow> string \<times> nat"
where
  "splice pf ld code start_of_pragma_line end_of_line filename =
     (let code = erase code start_of_pragma_line
                   (if end_of_line = npos then length code - start_of_pragma_line
                    else end_of_line - start_of_pragma_line);
          cp = (code, start_of_pragma_line)
      in case ld filename of
           Some included \<Rightarrow>
             (let cp = (if startOfIncludeMarker \<noteq> []
                        then insert_adv (insert_adv (insert_adv cp startOfIncludeMarker) filename)
                               (endOfLine pf)
                        else cp);
                  cp = insert_adv cp included
              in if endOfIncludeMarker \<noteq> []
                 then insert_adv (insert_adv (insert_adv cp endOfIncludeMarker) filename)
                        (endOfLine pf)
                 else cp)
         | None \<Rightarrow>
             (if failedLoadMarker \<noteq> []
              then insert_adv (insert_adv (insert_adv cp failedLoadMarker) filename) (endOfLine pf)
              else cp))"

text \<open>Line 196: the number of characters from the start of the file name to the end of the line.\<close>

definition span_length :: "string \<Rightarrow> nat \<Rightarrow> nat \<Rightarrow> nat" where
  "span_length code pos end_of_line =
     (if end_of_line = npos then length code - pos else end_of_line - pos)"

text \<open>Lines 200 to 216: the file name, from its start and the length of the line's rest.\<close>

definition filename_of :: "string \<Rightarrow> nat \<Rightarrow> nat \<Rightarrow> string" where
  "filename_of code pos num_characters =
     (let num_characters = prune code pos num_characters;
          pn = unquote code pos num_characters
      in substr code (fst pn) (snd pn))"

text \<open>
  The body of the loop. Its result is \<open>Break\<close>, or the buffer and the cursor with which
  the loop goes on, together with the file names passed to the loader in this iteration.
\<close>

datatype outcome = Break | Continue string nat "string list"

definition body ::
  "platform \<Rightarrow> (string \<Rightarrow> string option) \<Rightarrow> string \<Rightarrow> nat \<times> nat \<Rightarrow> outcome"
where
  "body pf ld code pi =
     (let pos = directive_pos pi;
          start_of_pragma_line = pos;
          end_of_line = find_first_of code [LF, CR] pos
      in case skip_directive code (fst pi) pos end_of_line of
           SBreak \<Rightarrow> Break
         | SContinue pos \<Rightarrow> Continue code pos []
         | FilenameAt pos \<Rightarrow>
             (let num_characters = span_length code pos end_of_line
              in if num_characters = 0 then Continue code pos []
                 else
                   (let filename = filename_of code pos num_characters;
                        cp = splice pf ld code start_of_pragma_line end_of_line filename
                    in Continue (fst cp) (snd cp) [filename])))"

section \<open>Facts about the searches\<close>

lemma first_index_Some:
  "first_index P xs = Some i \<Longrightarrow> i < length xs \<and> P (drop i xs) \<and> (\<forall>j<i. \<not> P (drop j xs))"
proof (induction xs arbitrary: i)
  case Nil
  then show ?case by simp
next
  case (Cons c cs)
  show ?case
  proof (cases "P (c # cs)")
    case True
    with Cons.prems show ?thesis by simp
  next
    case False
    with Cons.prems obtain k where k: "first_index P cs = Some k" "i = Suc k" by auto
    from Cons.IH [OF k(1)] have ih: "k < length cs" "P (drop k cs)" "\<forall>j<k. \<not> P (drop j cs)" by auto
    have "\<forall>j<Suc k. \<not> P (drop j (c # cs))"
    proof (intro allI impI)
      fix j assume "j < Suc k"
      then show "\<not> P (drop j (c # cs))" using False ih(3) by (cases j) auto
    qed
    with ih k show ?thesis by simp
  qed
qed


lemma found_from_cases:
  "found_from pos r = p \<Longrightarrow> p \<noteq> npos \<Longrightarrow> \<exists>i. r = Some i \<and> p = pos + i"
  by (cases r) (auto simp: found_from_def)

lemma find_str_found:
  assumes "find_str code pat pos = p" "p \<noteq> npos"
  shows "pos \<le> p \<and> p < length code \<and> prefix pat (drop p code)"
proof -
  from found_from_cases [OF assms [unfolded find_str_def]]
  obtain i where i: "first_index (prefix pat) (drop pos code) = Some i" "p = pos + i" by blast
  from first_index_Some [OF i(1)] i(2) show ?thesis by (auto simp: add.commute)
qed

lemma find_first_of_found:
  assumes "find_first_of code chars pos = p" "p \<noteq> npos"
  shows "pos \<le> p \<and> p < length code \<and> code ! p \<in> set chars"
proof -
  from found_from_cases [OF assms [unfolded find_first_of_def]]
  obtain i where i: "first_index (\<lambda>s. hd s \<in> set chars) (drop pos code) = Some i" "p = pos + i" by blast
  from first_index_Some [OF i(1)] i(2) show ?thesis by (auto simp: add.commute hd_drop_conv_nth)
qed

lemma find_first_not_of_found:
  assumes "find_first_not_of code chars pos = p" "p \<noteq> npos"
  shows "pos \<le> p \<and> p < length code \<and> code ! p \<notin> set chars"
proof -
  from found_from_cases [OF assms [unfolded find_first_not_of_def]]
  obtain i where i: "first_index (\<lambda>s. hd s \<notin> set chars) (drop pos code) = Some i" "p = pos + i" by blast
  from first_index_Some [OF i(1)] i(2) show ?thesis by (auto simp: add.commute hd_drop_conv_nth)
qed

text \<open>
  What an iteration puts in the place of a directive line: the two marker lines around
  the fragment when the loader gives one, the failure marker line otherwise.
\<close>

definition inserted_text :: "platform \<Rightarrow> (string \<Rightarrow> string option) \<Rightarrow> string \<Rightarrow> string" where
  "inserted_text pf ld filename =
     (case ld filename of
        Some included \<Rightarrow>
          startOfIncludeMarker @ filename @ endOfLine pf @ included @
          endOfIncludeMarker @ filename @ endOfLine pf
      | None \<Rightarrow> failedLoadMarker @ filename @ endOfLine pf)"

text \<open>The position at which the directive line ends: that of its terminator, or the size.\<close>

definition line_end :: "string \<Rightarrow> nat \<Rightarrow> nat" where
  "line_end code end_of_line = (if end_of_line = npos then length code else end_of_line)"

lemma insert_adv_eq:
  "pos \<le> length code \<Longrightarrow>
   insert_adv (take pos code @ a @ drop pos code', pos + length a) b =
     (take pos code @ (a @ b) @ drop pos code', pos + length (a @ b))"
  by (simp add: insert_adv_def)

lemma insert_adv_first:
  "insert_adv (code, pos) b = (take pos code @ b @ drop pos code, pos + length b)"
  by (simp add: insert_adv_def)

lemma splice_eq:
  assumes "s \<le> length code" "s \<le> line_end code e"
  shows "splice pf ld code s e fn =
           (take s code @ inserted_text pf ld fn @ drop (line_end code e) code,
            s + length (inserted_text pf ld fn))"
proof -
  define code1 where "code1 = erase code s (if e = npos then length code - s else e - s)"
  have c1: "code1 = take s code @ drop (line_end code e) code"
    using assms by (auto simp: code1_def erase_def line_end_def)
  have ins: "insert_adv (code1, s) a = (take s code @ a @ drop (line_end code e) code, s + length a)" for a
    using assms by (simp add: c1 insert_adv_def)
  have ins2: "insert_adv (take s code @ a @ drop (line_end code e) code, s + length a) b
          = (take s code @ (a @ b) @ drop (line_end code e) code, s + length (a @ b))" for a b
    using assms by (simp add: insert_adv_def)
  have ne: "startOfIncludeMarker \<noteq> []" "endOfIncludeMarker \<noteq> []" "failedLoadMarker \<noteq> []"
    by (simp_all add: startOfIncludeMarker_def endOfIncludeMarker_def failedLoadMarker_def)
  show ?thesis
    unfolding splice_def code1_def [symmetric] Let_def inserted_text_def
    using assms(1) by (cases "ld fn") (simp_all add: c1 insert_adv_def ne)
qed

section \<open>One iteration\<close>

lemma prefix_hd_nth:
  assumes "prefix (c # pat) (drop p code)"
  shows "p < length code \<and> code ! p = c"
proof -
  from assms obtain zs where zs: "drop p code = (c # pat) @ zs" by (auto simp: prefix_def)
  then have "drop p code \<noteq> []" by simp
  then have lt: "p < length code" by simp
  from zs have "hd (drop p code) = c" by simp
  with lt show ?thesis by (simp add: hd_drop_conv_nth)
qed

lemma loop_cond_Some:
  assumes "loop_cond code pos ip = Some pi"
  shows "pos \<noteq> npos \<and> pos \<le> directive_pos pi \<and> directive_pos pi < length code
         \<and> code ! directive_pos pi = CHR ''#''
         \<and> (if fst pi \<noteq> npos
             then fst pi = find_str code ''#pragma'' pos
             else find_str code ''#pragma'' pos = npos \<and> snd pi = find_str code ''#include'' pos
                  \<and> snd pi \<noteq> npos)"
proof -
  from assms have p: "pos \<noteq> npos" by (auto simp: loop_cond_def split: if_splits)
  show ?thesis
  proof (cases "find_str code ''#pragma'' pos = npos")
    case False
    with assms p have pi: "pi = (find_str code ''#pragma'' pos, ip)"
      by (auto simp: loop_cond_def Let_def)
    from find_str_found [OF refl False] prefix_hd_nth [of "CHR ''#''" "''pragma''"]
    show ?thesis using p False by (auto simp: pi directive_pos_def)
  next
    case True
    with assms p have pi: "pi = (npos, find_str code ''#include'' pos)"
      and f: "find_str code ''#include'' pos \<noteq> npos"
      by (auto simp: loop_cond_def Let_def split: if_splits)
    from find_str_found [OF refl f] prefix_hd_nth [of "CHR ''#''" "''include''"]
    show ?thesis using p True f by (auto simp: pi directive_pos_def)
  qed
qed

lemma skip_directive_FilenameAt:
  assumes "skip_directive code pp d e = FilenameAt q"
  shows "d + 7 \<le> q \<and> q < length code \<and> q \<noteq> npos \<and> code ! q \<noteq> SPC \<and> code ! q \<noteq> TAB"
proof (cases "pp \<noteq> npos")
  case True
  define q1 where "q1 = find_first_not_of code [SPC, TAB] (d + 7)"
  from assms True have 1: "q1 \<noteq> npos" "q = find_first_not_of code [SPC, TAB] (q1 + 7)" "q \<noteq> npos"
    by (auto simp: skip_directive_def Let_def q1_def split: if_splits)
  from find_first_not_of_found [OF q1_def [symmetric] 1(1)] have "d + 7 \<le> q1" by simp
  moreover from find_first_not_of_found [OF 1(2) [symmetric] 1(3)]
  have "q1 + 7 \<le> q" "q < length code" "code ! q \<notin> set [SPC, TAB]" by simp_all
  ultimately show ?thesis using 1(3) by simp
next
  case False
  with assms have 1: "q = find_first_not_of code [SPC, TAB] (d + 8)" "q \<noteq> npos"
    by (auto simp: skip_directive_def Let_def split: if_splits)
  from find_first_not_of_found [OF 1(1) [symmetric] 1(2)] 1(2) show ?thesis by simp
qed

lemma skip_directive_SContinue:
  "skip_directive code pp d e = SContinue p \<Longrightarrow> p = e"
  by (auto simp: skip_directive_def Let_def split: if_splits)

lemma end_of_line_after:
  assumes "code ! d = CHR ''#''" "e = find_first_of code [LF, CR] d" "e \<noteq> npos"
  shows "d < e \<and> e < length code"
proof -
  from find_first_of_found [OF assms(2) [symmetric] assms(3)]
  have 1: "d \<le> e" "e < length code" "code ! e \<in> set [LF, CR]" by simp_all
  from 1(3) assms(1) have "e \<noteq> d" by (auto simp: LF_def CR_def)
  with 1 show ?thesis by simp
qed

lemma body_FilenameAt:
  assumes "skip_directive code (fst pi) (directive_pos pi)
             (find_first_of code [LF, CR] (directive_pos pi)) = FilenameAt q"
    and "span_length code q (find_first_of code [LF, CR] (directive_pos pi)) \<noteq> 0"
    and "directive_pos pi \<le> length code"
    and "directive_pos pi \<le> line_end code (find_first_of code [LF, CR] (directive_pos pi))"
    and "fn = filename_of code q (span_length code q (find_first_of code [LF, CR] (directive_pos pi)))"
  shows "body pf ld code pi =
           Continue (take (directive_pos pi) code @ inserted_text pf ld fn @
                     drop (line_end code (find_first_of code [LF, CR] (directive_pos pi))) code)
                    (directive_pos pi + length (inserted_text pf ld fn)) [fn]"
  using assms(1,2) splice_eq [OF assms(3,4), of pf ld fn]
  by (simp add: body_def Let_def assms(5))

lemma body_Continue:
  assumes lc: "loop_cond code pos ip = Some pi"
    and b: "body pf ld code pi = Continue code' pos' calls"
  shows "prefix (take (directive_pos pi) code) code'
         \<and> (pos' \<noteq> npos \<longrightarrow>
               pos' \<le> length code' \<and> prefix (take (directive_pos pi) code) (take pos' code'))
         \<and> (pos' = npos \<or> length code' - pos' < length code - pos)"
proof -
  let ?d = "directive_pos pi"
  let ?e = "find_first_of code [LF, CR] ?d"
  from loop_cond_Some [OF lc] have d: "pos \<le> ?d" "?d < length code" "code ! ?d = CHR ''#''"
    by simp_all
  have e: "?e \<noteq> npos \<Longrightarrow> ?d < ?e \<and> ?e < length code"
    using end_of_line_after [OF d(3) refl] by simp
  have same: "prefix (take ?d code) (take p code)" if "?d \<le> p" for p
    using that by (metis min.absorb1 take_is_prefix take_take)
  show ?thesis
  proof (cases "skip_directive code (fst pi) ?d ?e")
    case SBreak
    with b show ?thesis by (simp add: body_def Let_def)
  next
    case (SContinue p)
    with b have "code' = code" "pos' = p" by (simp_all add: body_def Let_def)
    moreover from skip_directive_SContinue [OF SContinue] have "p = ?e" .
    ultimately have *: "code' = code" "pos' = ?e" by simp_all
    show ?thesis
    proof (cases "?e = npos")
      case True
      with * show ?thesis by (simp add: take_is_prefix)
    next
      case False
      with e have "?d < ?e" "?e < length code" by simp_all
      with * d same [of ?e] show ?thesis by (auto simp: take_is_prefix)
    qed
  next
    case (FilenameAt q)
    from skip_directive_FilenameAt [OF FilenameAt] have q: "?d + 7 \<le> q" "q < length code" by simp_all
    let ?n = "span_length code q ?e"
    show ?thesis
    proof (cases "?n = 0")
      case True
      with b FilenameAt have "code' = code \<and> pos' = q"
        by (simp add: body_def Let_def)
      with q d same [of q] show ?thesis by (auto simp: take_is_prefix)
    next
      case False
      let ?fn = "filename_of code q ?n"
      let ?M = "inserted_text pf ld ?fn"
      have le: "?d \<le> line_end code ?e" using d e by (auto simp: line_end_def)
      from body_FilenameAt [OF FilenameAt False _ le refl, of pf ld] d b
      have c: "code' = take ?d code @ ?M @ drop (line_end code ?e) code"
        and p: "pos' = ?d + length ?M" by simp_all
      have t: "take pos' code' = take ?d code @ ?M"
        using d by (simp add: c p)
      have "length code' - pos' = length code - line_end code ?e"
        using d by (simp add: c p)
      also have "\<dots> < length code - pos" using d e by (auto simp: line_end_def)
      finally have m: "length code' - pos' < length code - pos" .
      have pl: "pos' \<le> length code'" using d by (simp add: c p)
      have "prefix (take ?d code) (take pos' code')" "prefix (take ?d code) code'"
        unfolding t unfolding c by simp_all
      with m pl show ?thesis by simp
    qed
  qed
qed

text \<open>
  The \<open>while\<close> loop of lines 165 to 259, from a buffer, a cursor and the last value of
  \<open>include_pos\<close>. The result is the final buffer and the file names passed to the
  loader, in the order of the calls. Every iteration that goes on brings the cursor
  nearer to the end of the buffer, so the loop ends.
\<close>

function scan ::
  "platform \<Rightarrow> (string \<Rightarrow> string option) \<Rightarrow> string \<Rightarrow> nat \<Rightarrow> nat \<Rightarrow> string \<times> string list"
where
  "scan pf ld code pos include_pos =
     (case loop_cond code pos include_pos of
        None \<Rightarrow> (code, [])
      | Some pi \<Rightarrow>
          (case body pf ld code pi of
             Break \<Rightarrow> (code, [])
           | Continue code' pos' calls \<Rightarrow>
               (case scan pf ld code' pos' (snd pi) of (r, cs) \<Rightarrow> (r, calls @ cs))))"
  by pat_completeness auto
termination
proof (relation "measure (\<lambda>(pf, ld, code, pos, ip). if pos = npos then 0 else 1 + (length code - pos))")
  show "wf (measure (\<lambda>(pf, ld, code, pos, ip). if pos = npos then 0 else 1 + (length code - pos)))"
    by simp
next
  fix pf ld code pos include_pos pi code' pos' calls
  assume lc: "loop_cond code pos include_pos = Some pi"
    and b: "body pf ld code pi = Continue code' pos' calls"
  from loop_cond_Some [OF lc] have "pos \<noteq> npos" by simp
  with body_Continue [OF lc b]
  have "pos' = npos \<or> length code' - pos' < length code - pos" by simp
  with \<open>pos \<noteq> npos\<close> show "((pf, ld, code', pos', snd pi), (pf, ld, code, pos, include_pos))
        \<in> measure (\<lambda>(pf, ld, code, pos, ip). if pos = npos then 0 else 1 + (length code - pos))"
    by auto
qed

declare scan.simps [simp del]

lemma scan_npos: "scan pf ld code npos ip = (code, [])"
  by (simp add: scan.simps [of pf ld code npos] loop_cond_def)

lemma scan_prefix: "prefix (take pos code) (fst (scan pf ld code pos ip))"
proof (induction pf ld code pos ip rule: scan.induct)
  case (1 pf ld code pos ip)
  show ?case
  proof (cases "loop_cond code pos ip")
    case None
    then show ?thesis by (simp add: scan.simps [of pf ld code pos ip] take_is_prefix)
  next
    case (Some pi)
    show ?thesis
    proof (cases "body pf ld code pi")
      case Break
      with Some show ?thesis by (simp add: scan.simps [of pf ld code pos ip] take_is_prefix)
    next
      case (Continue code' pos' calls)
      from loop_cond_Some [OF Some] have "pos \<le> directive_pos pi" by simp
      then have pd: "prefix (take pos code) (take (directive_pos pi) code)"
        by (metis min.absorb1 take_is_prefix take_take)
      from body_Continue [OF Some Continue]
      have pc: "prefix (take (directive_pos pi) code) code'"
        and pn: "pos' \<noteq> npos \<Longrightarrow> prefix (take (directive_pos pi) code) (take pos' code')"
        by simp_all
      have r: "fst (scan pf ld code pos ip) = fst (scan pf ld code' pos' (snd pi))"
        using Some Continue by (simp add: scan.simps [of pf ld code pos ip] split: prod.splits)
      show ?thesis
      proof (cases "pos' = npos")
        case True
        with pc pd r show ?thesis by (simp add: scan_npos)
      next
        case False
        from "1.IH" [OF Some Continue]
        have "prefix (take pos' code') (fst (scan pf ld code' pos' (snd pi)))" .
        with pn [OF False] pd r show ?thesis by (metis prefix_order.order_trans)
      qed
    qed
  qed
qed

lemma scan_keeps_before_directive:
  assumes "loop_cond code pos ip = Some pi"
  shows "prefix (take (directive_pos pi) code) (fst (scan pf ld code pos ip))"
proof (cases "body pf ld code pi")
  case Break
  with assms show ?thesis by (simp add: scan.simps [of pf ld code pos ip] take_is_prefix)
next
  case (Continue code' pos' calls)
  from body_Continue [OF assms Continue]
  have pc: "prefix (take (directive_pos pi) code) code'"
    and pn: "pos' \<noteq> npos \<Longrightarrow> prefix (take (directive_pos pi) code) (take pos' code')"
    by simp_all
  have r: "fst (scan pf ld code pos ip) = fst (scan pf ld code' pos' (snd pi))"
    using assms Continue by (simp add: scan.simps [of pf ld code pos ip] split: prod.splits)
  show ?thesis
  proof (cases "pos' = npos")
    case True
    with pc r show ?thesis by (simp add: scan_npos)
  next
    case False
    from pn [OF False] scan_prefix [of pos' code' pf ld "snd pi"] r
    show ?thesis by (metis prefix_order.order_trans)
  qed
qed

text \<open>\<open>vsg::insertIncludes(source, options)\<close>, and the loader calls that it makes.\<close>

definition insertIncludes :: "platform \<Rightarrow> (string \<Rightarrow> string option) \<Rightarrow> string \<Rightarrow> string" where
  "insertIncludes pf ld source = fst (scan pf ld source 0 0)"

definition loader_calls :: "platform \<Rightarrow> (string \<Rightarrow> string option) \<Rightarrow> string \<Rightarrow> string list" where
  "loader_calls pf ld source = snd (scan pf ld source 0 0)"

section \<open>Directive lines\<close>

text \<open>
  The shape of a line that holds a directive: a token, blanks, the trimmed span of the
  file name, blanks, and then the end of the buffer or a line terminator. \<open>blanks\<close>
  are spaces and tabs; a span has no line terminator and neither starts nor ends with a
  blank.
\<close>

definition blanks :: "string \<Rightarrow> bool" where
  "blanks ws = list_all (\<lambda>c. c = SPC \<or> c = TAB) ws"

definition no_newline :: "string \<Rightarrow> bool" where
  "no_newline s = list_all (\<lambda>c. c \<noteq> LF \<and> c \<noteq> CR) s"

definition ends_line :: "string \<Rightarrow> bool" where
  "ends_line rest = (rest = [] \<or> hd rest = LF \<or> hd rest = CR)"

definition is_span :: "string \<Rightarrow> bool" where
  "is_span span = (span \<noteq> [] \<and> hd span \<noteq> SPC \<and> hd span \<noteq> TAB \<and> last span \<noteq> SPC
                   \<and> last span \<noteq> TAB \<and> no_newline span)"

text \<open>
  The file name that lines 202 to 216 take from a trimmed span: the span itself when it
  does not start with a quote; without its first character when only the first is a
  quote; without its first and last when both are quotes and the span is longer than one
  character; and, when the span is the one character \<open>"\<close>, all of the buffer
  \<open>after\<close> the span. Lemma \<open>filename_of_span\<close> proves it equal to \<open>filename_of\<close>.
\<close>

definition span_filename :: "string \<Rightarrow> string \<Rightarrow> string" where
  "span_filename span after =
     (if hd span = DQUOTE then
        (if last span \<noteq> DQUOTE then tl span
         else if length span = 1 then after
         else butlast (tl span))
      else span)"

lemma first_index_skip:
  "list_all (\<lambda>c. \<not> Q c) ws \<Longrightarrow>
   first_index (\<lambda>s. Q (hd s)) (ws @ xs) =
     (case first_index (\<lambda>s. Q (hd s)) xs of None \<Rightarrow> None | Some i \<Rightarrow> Some (length ws + i))"
  by (induction ws) (simp_all split: option.splits)

lemma first_index_hd: "xs \<noteq> [] \<Longrightarrow> Q (hd xs) \<Longrightarrow> first_index (\<lambda>s. Q (hd s)) xs = Some 0"
  by (cases xs) simp_all

lemma first_index_all_skip:
  "list_all (\<lambda>c. \<not> Q c) ws \<Longrightarrow> first_index (\<lambda>s. Q (hd s)) ws = None"
  by (induction ws) simp_all

lemma first_index_no_hash:
  "CHR ''#'' \<notin> set pre \<Longrightarrow>
   first_index (prefix (CHR ''#'' # pat)) (pre @ xs) =
     (case first_index (prefix (CHR ''#'' # pat)) xs of
        None \<Rightarrow> None | Some i \<Rightarrow> Some (length pre + i))"
  by (induction pre) (auto split: option.splits)

lemma first_index_prefix: "xs \<noteq> [] \<Longrightarrow> P xs \<Longrightarrow> first_index P xs = Some 0"
  by (cases xs) simp_all

lemma find_first_of_line:
  assumes "no_newline line" "ends_line rest"
  shows "find_first_of (pre @ line @ rest) [LF, CR] (length pre) =
           (if rest = [] then npos else length pre + length line)"
proof -
  have 1: "list_all (\<lambda>c. \<not> (c \<in> set [LF, CR])) line"
    using assms(1) by (simp add: no_newline_def list_all_iff)
  have "first_index (\<lambda>s. hd s \<in> set [LF, CR]) rest = (if rest = [] then None else Some 0)"
    using assms(2) first_index_hd [of rest "\<lambda>c. c \<in> set [LF, CR]"]
    by (auto simp: ends_line_def)
  with first_index_skip [OF 1, of rest] show ?thesis
    by (simp add: find_first_of_def found_from_def)
qed

lemma find_first_not_of_blanks:
  assumes "blanks ws" "xs \<noteq> []" "hd xs \<noteq> SPC" "hd xs \<noteq> TAB" "length pre = p"
  shows "find_first_not_of (pre @ ws @ xs) [SPC, TAB] p = p + length ws"
proof -
  have 1: "list_all (\<lambda>c. \<not> (c \<notin> set [SPC, TAB])) ws"
    using assms(1) by (simp add: blanks_def list_all_iff)
  from first_index_skip [OF 1, of xs] first_index_hd [of xs "\<lambda>c. c \<notin> set [SPC, TAB]"] assms(2-5)
  show ?thesis by (simp add: find_first_not_of_def found_from_def)
qed

lemma find_first_not_of_end:
  assumes "blanks ws" "length pre = p"
  shows "find_first_not_of (pre @ ws) [SPC, TAB] p = npos"
proof -
  have 1: "list_all (\<lambda>c. \<not> (c \<notin> set [SPC, TAB])) ws"
    using assms(1) by (simp add: blanks_def list_all_iff)
  from first_index_all_skip [OF 1] assms(2)
  show ?thesis by (simp add: find_first_not_of_def found_from_def)
qed

lemma char_at_append:
  "i < length xs \<Longrightarrow> length A = p \<Longrightarrow> char_at (A @ xs @ B) (p + i) = xs ! i"
  by (auto simp: char_at_def nth_append)

lemma char_at_hd:
  "xs \<noteq> [] \<Longrightarrow> length A = p \<Longrightarrow> char_at (A @ xs @ B) p = hd xs"
  using char_at_append [of 0 xs A p B] by (simp add: hd_conv_nth)

lemma char_at_last:
  "xs \<noteq> [] \<Longrightarrow> length A = p \<Longrightarrow> char_at (A @ xs @ B) (p + length xs - 1) = last xs"
proof -
  assume xs: "xs \<noteq> []" and A: "length A = p"
  then have "p + length xs - 1 = p + (length xs - 1)" by (cases xs) simp_all
  with char_at_append [of "length xs - 1" xs A p B] xs A show ?thesis
    by (simp add: last_conv_nth)
qed

lemma prune_blanks:
  assumes "blanks ws" "span \<noteq> []" "last span \<noteq> SPC" "last span \<noteq> TAB" "length A = p"
  shows "prune (A @ span @ ws @ rest) p (length span + length ws) = length span"
  using assms(1)
proof (induction ws arbitrary: rest rule: rev_induct)
  case Nil
  from assms(2) obtain m where m: "length span = Suc m" by (cases span) auto
  from char_at_last [OF assms(2,5), of rest] assms(3,4) m
  show ?case by simp
next
  case (snoc c ws)
  then have b: "blanks ws" and c: "c = SPC \<or> c = TAB" by (simp_all add: blanks_def)
  have "char_at (A @ (span @ ws @ [c]) @ rest) (p + length (span @ ws @ [c]) - 1) = c"
    using char_at_last [of "span @ ws @ [c]" A p rest] assms(5) by simp
  then have "char_at (A @ span @ (ws @ [c]) @ rest) (p + Suc (length span + length ws) - 1) = c"
    by simp
  with c snoc.IH [OF b, of "c # rest"] show ?case by simp
qed

lemma sub_mod_simple:
  fixes a b m :: nat
  assumes "b \<le> a" "a < m"
  shows "(a + m - b) mod m = a - b"
proof -
  from assms(1) have "a + m - b = (a - b) + m" by simp
  moreover from assms(2) have "a - b < m" by simp
  ultimately show ?thesis by (simp only: mod_add_self2 mod_less)
qed

lemma sub_sz_simple: "b \<le> a \<Longrightarrow> a < 2 ^ 64 \<Longrightarrow> sub_sz a b = a - b"
  unfolding sub_sz_def by (rule sub_mod_simple)

lemma sub_sz_wrap: "sub_sz 1 2 = npos"
  by (simp add: sub_sz_def npos_def)

lemma unquote_plain:
  "char_at code p \<noteq> DQUOTE \<Longrightarrow> unquote code p n = (p, n)"
  by (simp add: unquote_def)

lemma unquote_open:
  "char_at code p = DQUOTE \<Longrightarrow> char_at code (p + n - 1) \<noteq> DQUOTE \<Longrightarrow> 1 \<le> n \<Longrightarrow> n < 2 ^ 64 \<Longrightarrow>
   unquote code p n = (p + 1, n - 1)"
  using sub_sz_simple [of 1 n] by (simp add: unquote_def)

lemma unquote_closed:
  "char_at code p = DQUOTE \<Longrightarrow> char_at code (p + n - 1) = DQUOTE \<Longrightarrow> 2 \<le> n \<Longrightarrow> n < 2 ^ 64 \<Longrightarrow>
   unquote code p n = (p + 1, n - 2)"
  using sub_sz_simple [of 2 n] by (simp add: unquote_def)

lemma unquote_single:
  "char_at code p = DQUOTE \<Longrightarrow> unquote code p 1 = (p + 1, npos)"
  using sub_sz_wrap by (simp add: unquote_def)

lemma filename_of_span:
  assumes "is_span span" "blanks ws" "length A = p" "length (A @ span @ ws @ rest) < npos"
  shows "filename_of (A @ span @ ws @ rest) p (length span + length ws) =
           span_filename span (ws @ rest)"
proof -
  let ?code = "A @ span @ ws @ rest"
  from assms(1) have s: "span \<noteq> []" "last span \<noteq> SPC" "last span \<noteq> TAB"
    by (simp_all add: is_span_def)
  have pr: "prune ?code p (length span + length ws) = length span"
    by (rule prune_blanks [OF assms(2) s assms(3)])
  have h: "char_at ?code p = hd span"
    using char_at_hd [OF s(1) assms(3), of "ws @ rest"] by simp
  have l: "char_at ?code (p + length span - 1) = last span"
    using char_at_last [OF s(1) assms(3), of "ws @ rest"] by simp
  have lt: "length span < 2 ^ 64" using assms(4) by (simp add: npos_def)
  have d0: "drop p ?code = span @ ws @ rest" using assms(3) by simp
  have d1: "drop (p + 1) ?code = tl span @ ws @ rest"
    using assms(3) s(1) by (cases span) simp_all
  have f: "filename_of ?code p (length span + length ws) =
             take (snd (unquote ?code p (length span))) (drop (fst (unquote ?code p (length span))) ?code)"
    by (simp only: filename_of_def Let_def pr substr_def)
  from s(1) have n1: "1 \<le> length span" by (cases span) simp_all
  consider (plain) "hd span \<noteq> DQUOTE"
    | (opened) "hd span = DQUOTE" "last span \<noteq> DQUOTE"
    | (single) "hd span = DQUOTE" "last span = DQUOTE" "length span = 1"
    | (closed) "hd span = DQUOTE" "last span = DQUOTE" "length span \<noteq> 1"
    by blast
  then show ?thesis
  proof cases
    case plain
    have u: "unquote ?code p (length span) = (p, length span)"
      using plain h by (simp add: unquote_plain)
    have "take (length span) (span @ ws @ rest) = span" by simp
    then show ?thesis
      unfolding f u fst_conv snd_conv d0 span_filename_def using plain by simp
  next
    case opened
    have u: "unquote ?code p (length span) = (p + 1, length span - 1)"
      using opened h l n1 lt by (simp add: unquote_open)
    have "take (length span - 1) (tl span @ ws @ rest) = tl span" by simp
    then show ?thesis
      unfolding f u fst_conv snd_conv d1 span_filename_def using opened by simp
  next
    case single
    have u: "unquote ?code p (length span) = (p + 1, npos)"
      using single(1) h unquote_single [of ?code p] by (simp add: single(3))
    have "length (tl span @ ws @ rest) \<le> npos" using assms(4) by simp
    then have "take npos (tl span @ ws @ rest) = tl span @ ws @ rest" by (rule take_all)
    moreover have "tl span = []" using single(3) by (cases span) simp_all
    ultimately show ?thesis
      unfolding f u fst_conv snd_conv d1 span_filename_def using single by simp
  next
    case closed
    from closed(3) n1 have n2: "2 \<le> length span" by linarith
    have u: "unquote ?code p (length span) = (p + 1, length span - 2)"
      using closed h l n2 lt by (simp add: unquote_closed)
    have "take (length span - 2) (tl span @ ws @ rest) = butlast (tl span)"
      using n2 by (simp add: butlast_conv_take numeral_2_eq_2)
    then show ?thesis
      unfolding f u fst_conv snd_conv d1 span_filename_def using closed by simp
  qed
qed

lemma chars_distinct:
  "SPC \<noteq> LF" "SPC \<noteq> CR" "TAB \<noteq> LF" "TAB \<noteq> CR"
  by (simp_all add: SPC_def TAB_def LF_def CR_def)

lemma blanks_no_newline: "blanks ws \<Longrightarrow> no_newline ws"
  unfolding blanks_def no_newline_def
  by (induction ws) (use chars_distinct in auto)

lemma no_newline_append [simp]: "no_newline (xs @ ys) \<longleftrightarrow> no_newline xs \<and> no_newline ys"
  by (simp add: no_newline_def)

lemma drop_exact: "length A = n \<Longrightarrow> drop n (A @ B) = B"
  by simp

lemma take_exact: "length A = n \<Longrightarrow> take n (A @ B) = A"
  by simp

lemma skip_include_gen:
  assumes "length kw = 8" "blanks ws1" "xs \<noteq> []" "hd xs \<noteq> SPC" "hd xs \<noteq> TAB"
    and "length (pre @ kw @ ws1 @ xs) < npos"
  shows "skip_directive (pre @ kw @ ws1 @ xs) npos (length pre) e =
           FilenameAt (length pre + 8 + length ws1)"
proof -
  have "find_first_not_of ((pre @ kw) @ ws1 @ xs) [SPC, TAB] (length pre + 8) =
          length pre + 8 + length ws1"
    by (rule find_first_not_of_blanks [OF assms(2-5)]) (simp add: assms(1))
  then have f: "find_first_not_of (pre @ kw @ ws1 @ xs) [SPC, TAB] (length pre + 8) =
          length pre + 8 + length ws1" by (simp only: append_assoc)
  from assms(3) have "0 < length xs" by simp
  with assms(1,6) have n: "length pre + 8 + length ws1 \<noteq> npos" by simp
  show ?thesis unfolding skip_directive_def Let_def f using n by simp
qed

lemma skip_include_end_gen:
  assumes "length kw = 8" "blanks ws1"
  shows "skip_directive (pre @ kw @ ws1) npos (length pre) e = SBreak"
proof -
  have "find_first_not_of ((pre @ kw) @ ws1) [SPC, TAB] (length pre + 8) = npos"
    by (rule find_first_not_of_end [OF assms(2)]) (simp add: assms(1))
  then have f: "find_first_not_of (pre @ kw @ ws1) [SPC, TAB] (length pre + 8) = npos" by (simp only: append_assoc)
  show ?thesis unfolding skip_directive_def Let_def f by simp
qed

lemma skip_pragma_gen:
  assumes "length kw = 7" "inc = ''include''"
    and "blanks ws0" "blanks ws1" "xs \<noteq> []" "hd xs \<noteq> SPC" "hd xs \<noteq> TAB" "pp \<noteq> npos"
    and "length (pre @ kw @ ws0 @ inc @ ws1 @ xs) < npos"
  shows "skip_directive (pre @ kw @ ws0 @ inc @ ws1 @ xs) pp (length pre) e =
           FilenameAt (length pre + 7 + length ws0 + 7 + length ws1)"
proof -
  let ?code = "pre @ kw @ ws0 @ inc @ ws1 @ xs"
  let ?q1 = "length pre + 7 + length ws0"
  have i: "inc \<noteq> []" "hd inc \<noteq> SPC" "hd inc \<noteq> TAB" "length inc = 7"
    by (simp_all add: assms(2) SPC_def TAB_def)
  have "find_first_not_of ((pre @ kw) @ ws0 @ (inc @ ws1 @ xs)) [SPC, TAB] (length pre + 7) = ?q1"
    by (rule find_first_not_of_blanks [OF assms(3)]) (simp_all add: i assms(1))
  then have f1: "find_first_not_of ?code [SPC, TAB] (length pre + 7) = ?q1" by (simp only: append_assoc)
  have "find_first_not_of ((pre @ kw @ ws0 @ inc) @ ws1 @ xs) [SPC, TAB] (?q1 + 7) =
          ?q1 + 7 + length ws1"
    by (rule find_first_not_of_blanks [OF assms(4-7)]) (simp add: i assms(1))
  then have f2: "find_first_not_of ?code [SPC, TAB] (?q1 + 7) = ?q1 + 7 + length ws1" by (simp only: append_assoc)
  have "drop ?q1 ((pre @ kw @ ws0) @ (inc @ ws1 @ xs)) = inc @ ws1 @ xs"
    by (rule drop_exact) (simp add: assms(1))
  then have d: "drop ?q1 ?code = inc @ ws1 @ xs" by (simp only: append_assoc)
  have "take 7 (inc @ ws1 @ xs) = inc" using i(4) by simp
  then have "substr ?code ?q1 7 = inc" by (simp only: substr_def d)
  then have c: "compare_eq ?code ?q1 7 ''include''"
    by (simp add: compare_eq_def assms(2))
  from assms(5) have "0 < length xs" by simp
  with assms(9) i(4) assms(1) have n: "?q1 \<noteq> npos" "?q1 + 7 + length ws1 \<noteq> npos" by simp_all
  show ?thesis unfolding skip_directive_def Let_def f1 f2 using assms(8) n c by simp
qed

lemma skip_pragma_end_gen:
  assumes "length kw = 7" "inc = ''include''"
    and "blanks ws0" "blanks ws1" "pp \<noteq> npos"
    and "length (pre @ kw @ ws0 @ inc @ ws1) < npos"
  shows "skip_directive (pre @ kw @ ws0 @ inc @ ws1) pp (length pre) e = SBreak"
proof -
  let ?code = "pre @ kw @ ws0 @ inc @ ws1"
  let ?q1 = "length pre + 7 + length ws0"
  have i: "inc \<noteq> []" "hd inc \<noteq> SPC" "hd inc \<noteq> TAB" "length inc = 7"
    by (simp_all add: assms(2) SPC_def TAB_def)
  have "find_first_not_of ((pre @ kw) @ ws0 @ (inc @ ws1)) [SPC, TAB] (length pre + 7) = ?q1"
    by (rule find_first_not_of_blanks [OF assms(3)]) (simp_all add: i assms(1))
  then have f1: "find_first_not_of ?code [SPC, TAB] (length pre + 7) = ?q1" by (simp only: append_assoc)
  have "find_first_not_of ((pre @ kw @ ws0 @ inc) @ ws1) [SPC, TAB] (?q1 + 7) = npos"
    by (rule find_first_not_of_end [OF assms(4)]) (simp add: i assms(1))
  then have f2: "find_first_not_of ?code [SPC, TAB] (?q1 + 7) = npos" by (simp only: append_assoc)
  have "drop ?q1 ((pre @ kw @ ws0) @ (inc @ ws1)) = inc @ ws1"
    by (rule drop_exact) (simp add: assms(1))
  then have d: "drop ?q1 ?code = inc @ ws1" by (simp only: append_assoc)
  have "take 7 (inc @ ws1) = inc" using i(4) by simp
  then have "substr ?code ?q1 7 = inc" by (simp only: substr_def d)
  then have c: "compare_eq ?code ?q1 7 ''include''"
    by (simp add: compare_eq_def assms(2))
  from assms(6) i(4) assms(1) have n: "?q1 \<noteq> npos" by simp
  show ?thesis unfolding skip_directive_def Let_def f1 f2 using assms(5) n c by simp
qed

lemma find_str_no_hash:
  assumes "CHR ''#'' \<notin> set pre"
  shows "find_str (pre @ (CHR ''#'' # pat) @ xs) (CHR ''#'' # pat) 0 = length pre"
proof -
  have "first_index (prefix (CHR ''#'' # pat)) ((CHR ''#'' # pat) @ xs) = Some 0"
    by (rule first_index_prefix) simp_all
  with first_index_no_hash [OF assms, of pat "(CHR ''#'' # pat) @ xs"]
  show ?thesis by (simp add: find_str_def found_from_def)
qed

lemma first_index_none_hash:
  "CHR ''#'' \<notin> set xs \<Longrightarrow> first_index (prefix (CHR ''#'' # pat)) xs = None"
  by (induction xs) auto

lemma find_str_none_hash:
  assumes "CHR ''#'' \<notin> set xs" "length A = p"
  shows "find_str (A @ xs) (CHR ''#'' # pat) p = npos"
  using first_index_none_hash [OF assms(1), of pat] assms(2)
  by (simp add: find_str_def found_from_def)

lemma loop_cond_none_hash:
  assumes "CHR ''#'' \<notin> set xs" "length A = p"
  shows "loop_cond (A @ xs) p ip = None"
  using find_str_none_hash [OF assms, of "''pragma''"] find_str_none_hash [OF assms, of "''include''"]
  by (simp add: loop_cond_def)

lemma scan_none_hash:
  assumes "CHR ''#'' \<notin> set xs" "length A = p"
  shows "scan pf ld (A @ xs) p ip = (A @ xs, [])"
  using loop_cond_none_hash [OF assms] by (simp add: scan.simps [of pf ld "A @ xs" p ip])

lemma scan_step:
  assumes "loop_cond code pos ip = Some pi" "body pf ld code pi = Continue code' pos' calls"
  shows "scan pf ld code pos ip =
           (fst (scan pf ld code' pos' (snd pi)), calls @ snd (scan pf ld code' pos' (snd pi)))"
  using assms by (simp add: scan.simps [of pf ld code pos ip] split: prod.splits)

lemma scan_break:
  assumes "loop_cond code pos ip = Some pi" "body pf ld code pi = Break"
  shows "scan pf ld code pos ip = (code, [])"
  using assms by (simp add: scan.simps [of pf ld code pos ip])

lemma body_on_line:
  assumes pi: "directive_pos pi = length pre"
    and skip: "skip_directive src (fst pi) (length pre) (find_first_of src [LF, CR] (length pre)) =
                 FilenameAt (length pre + length front)"
    and front: "no_newline front"
    and span: "is_span span" and ws: "blanks ws" and rest: "ends_line rest"
    and src: "src = pre @ front @ span @ ws @ rest"
    and len: "length src < npos"
  shows "body pf ld src pi =
           Continue (pre @ inserted_text pf ld (span_filename span (ws @ rest)) @ rest)
                    (length pre + length (inserted_text pf ld (span_filename span (ws @ rest))))
                    [span_filename span (ws @ rest)]"
proof -
  let ?line = "front @ span @ ws"
  let ?e = "find_first_of src [LF, CR] (length pre)"
  let ?q = "length pre + length front"
  let ?fn = "span_filename span (ws @ rest)"
  from span have sp: "span \<noteq> []" "no_newline span" by (simp_all add: is_span_def)
  have nl: "no_newline ?line" using front sp(2) blanks_no_newline [OF ws] by simp
  have "find_first_of (pre @ ?line @ rest) [LF, CR] (length pre) =
          (if rest = [] then npos else length pre + length ?line)"
    by (rule find_first_of_line [OF nl rest])
  then have e: "?e = (if rest = [] then npos else length pre + length ?line)"
    by (simp only: src append_assoc)
  have ne: "rest \<noteq> [] \<Longrightarrow> length pre + length ?line \<noteq> npos"
    using len by (cases rest) (simp_all add: src)
  have le: "line_end src ?e = length pre + length ?line"
    using e ne by (cases "rest = []") (simp_all add: line_end_def src)
  have sl: "span_length src ?q ?e = length span + length ws"
    using e ne by (cases "rest = []") (simp_all add: span_length_def src)
  have "filename_of ((pre @ front) @ span @ ws @ rest) ?q (length span + length ws) = ?fn"
    by (rule filename_of_span [OF span ws]) (use len in \<open>simp_all add: src\<close>)
  then have fn: "filename_of src ?q (length span + length ws) = ?fn"
    by (simp only: src append_assoc)
  have t: "take (length pre) src = pre" by (simp add: src)
  have "drop (length pre + length ?line) ((pre @ ?line) @ rest) = rest"
    by (rule drop_exact) simp
  then have d: "drop (length pre + length ?line) src = rest"
    by (simp only: src append_assoc)
  have "body pf ld src pi =
           Continue (take (directive_pos pi) src @ inserted_text pf ld ?fn @
                     drop (line_end src (find_first_of src [LF, CR] (directive_pos pi))) src)
                    (directive_pos pi + length (inserted_text pf ld ?fn)) [?fn]"
  proof (rule body_FilenameAt)
    show "skip_directive src (fst pi) (directive_pos pi)
            (find_first_of src [LF, CR] (directive_pos pi)) = FilenameAt ?q"
      using skip by (simp only: pi)
    show "span_length src ?q (find_first_of src [LF, CR] (directive_pos pi)) \<noteq> 0"
      using sl sp(1) by (simp only: pi) simp
    show "directive_pos pi \<le> length src" by (simp add: pi src)
    show "directive_pos pi \<le> line_end src (find_first_of src [LF, CR] (directive_pos pi))"
      by (simp only: pi le)
    show "?fn = filename_of src ?q (span_length src ?q (find_first_of src [LF, CR] (directive_pos pi)))"
      by (simp only: pi sl fn)
  qed
  then show ?thesis by (simp only: pi le t d)
qed

section \<open>A directive line at any iteration\<close>

text \<open>
  The state of the loop (buffer, cursor and \<open>include_pos\<close>) after \<open>n\<close> further
  iterations, when the loop makes that many.
\<close>

fun iterate ::
  "platform \<Rightarrow> (string \<Rightarrow> string option) \<Rightarrow> nat \<Rightarrow> string \<times> nat \<times> nat \<Rightarrow>
     (string \<times> nat \<times> nat) option"
where
  "iterate pf ld 0 st = Some st"
| "iterate pf ld (Suc n) st =
     (case st of (code, pos, ip) \<Rightarrow>
        (case loop_cond code pos ip of
           None \<Rightarrow> None
         | Some pi \<Rightarrow>
             (case body pf ld code pi of
                Break \<Rightarrow> None
              | Continue code' pos' calls \<Rightarrow> iterate pf ld n (code', pos', snd pi))))"

text \<open>
  The two tokens that introduce a file name: \<open>#include\<close>, and \<open>#pragma\<close>, blanks,
  \<open>include\<close>.
\<close>

definition directive_token :: "string \<Rightarrow> string \<Rightarrow> bool" where
  "directive_token ws0 tok =
     (tok = ''#include'' \<or> tok = ''#pragma'' @ ws0 @ ''include'' \<and> blanks ws0)"

lemma iterate_scan:
  "iterate pf ld n (code, pos, ip) = Some (code', pos', ip') \<Longrightarrow>
   \<exists>cs. scan pf ld code pos ip =
          (fst (scan pf ld code' pos' ip'), cs @ snd (scan pf ld code' pos' ip'))"
proof (induction n arbitrary: code pos ip)
  case 0
  then have "scan pf ld code pos ip =
               (fst (scan pf ld code' pos' ip'), [] @ snd (scan pf ld code' pos' ip'))" by simp
  then show ?case by blast
next
  case (Suc n)
  from Suc.prems obtain pi c1 p1 calls where
    lc: "loop_cond code pos ip = Some pi"
    and b: "body pf ld code pi = Continue c1 p1 calls"
    and it: "iterate pf ld n (c1, p1, snd pi) = Some (code', pos', ip')"
    by (auto split: option.splits outcome.splits)
  from Suc.IH [OF it] obtain cs where
    "scan pf ld c1 p1 (snd pi) =
       (fst (scan pf ld code' pos' ip'), cs @ snd (scan pf ld code' pos' ip'))" by blast
  with scan_step [OF lc b] have
    "scan pf ld code pos ip =
       (fst (scan pf ld code' pos' ip'), (calls @ cs) @ snd (scan pf ld code' pos' ip'))"
    by simp
  then show ?case by blast
qed

lemma iterate_output:
  assumes "iterate pf ld n (source, 0, 0) = Some (code, pos, ip)"
  shows "insertIncludes pf ld source = fst (scan pf ld code pos ip)"
    and "\<exists>cs. loader_calls pf ld source = cs @ snd (scan pf ld code pos ip)"
  using iterate_scan [OF assms] by (auto simp: insertIncludes_def loader_calls_def)

lemma zero_not_npos: "0 \<noteq> npos"
  by (simp add: npos_def)

lemma span_hd:
  assumes "is_span span"
  shows "span @ xs \<noteq> []" "hd (span @ xs) \<noteq> SPC" "hd (span @ xs) \<noteq> TAB"
  using assms by (simp_all add: is_span_def)

lemma line_start:
  assumes "ends_line rest" "rest \<noteq> []"
  shows "hd rest \<noteq> SPC" "hd rest \<noteq> TAB"
  using assms chars_distinct by (auto simp: ends_line_def)

lemma selected_token:
  assumes lc: "loop_cond src pos ip = Some pi"
    and d: "directive_pos pi = length pre"
    and tok: "directive_token ws0 tok"
    and src: "src = pre @ tok @ xs"
  shows "fst pi = npos \<longleftrightarrow> tok = ''#include''"
proof -
  have dr: "drop (length pre) src = tok @ xs" by (simp add: src)
  show ?thesis
  proof (cases "fst pi = npos")
    case True
    with loop_cond_Some [OF lc] have s: "snd pi = find_str src ''#include'' pos" "snd pi \<noteq> npos"
      by simp_all
    from True have "directive_pos pi = snd pi" by (cases pi) (simp add: directive_pos_def)
    with find_str_found [OF s(1) [symmetric] s(2)] d dr
    have p: "prefix ''#include'' (tok @ xs)" by simp
    have "tok = ''#include''"
    proof (rule ccontr)
      assume "tok \<noteq> ''#include''"
      with tok have "tok = ''#pragma'' @ ws0 @ ''include''" by (simp add: directive_token_def)
      with p show False by simp
    qed
    with True show ?thesis by simp
  next
    case False
    with loop_cond_Some [OF lc] have f: "fst pi = find_str src ''#pragma'' pos" by simp
    from False have "directive_pos pi = fst pi" by (cases pi) (simp add: directive_pos_def)
    with find_str_found [OF f [symmetric] False] d dr
    have p: "prefix ''#pragma'' (tok @ xs)" by simp
    have "tok \<noteq> ''#include''"
    proof
      assume "tok = ''#include''"
      with p show False by simp
    qed
    with False show ?thesis by simp
  qed
qed

lemma directive_token_no_newline: "directive_token ws0 tok \<Longrightarrow> no_newline tok"
  using blanks_no_newline [of ws0]
  by (auto simp: directive_token_def no_newline_def LF_def CR_def)

lemma skip_token:
  assumes tok: "directive_token ws0 tok"
    and pp: "pp = npos \<longleftrightarrow> tok = ''#include''"
    and ws: "blanks ws1" and xs: "xs \<noteq> []" "hd xs \<noteq> SPC" "hd xs \<noteq> TAB"
    and src: "src = pre @ tok @ ws1 @ xs"
    and len: "length src < npos"
  shows "skip_directive src pp (length pre) e = FilenameAt (length pre + length (tok @ ws1))"
proof -
  from tok consider (inc) "tok = ''#include''"
    | (pra) "tok = ''#pragma'' @ ws0 @ ''include''" "blanks ws0"
    by (auto simp: directive_token_def)
  then show ?thesis
  proof cases
    case inc
    with pp have p: "pp = npos" by simp
    have "skip_directive (pre @ ''#include'' @ ws1 @ xs) npos (length pre) e =
           FilenameAt (length pre + 8 + length ws1)"
      by (rule skip_include_gen [OF _ ws xs]) (use len in \<open>simp_all add: src inc\<close>)
    then show ?thesis by (simp only: src inc p) simp
  next
    case pra
    then have "tok \<noteq> ''#include''" by simp
    with pp have p: "pp \<noteq> npos" by simp
    have "skip_directive (pre @ ''#pragma'' @ ws0 @ ''include'' @ ws1 @ xs) pp (length pre) e =
           FilenameAt (length pre + 7 + length ws0 + 7 + length ws1)"
      by (rule skip_pragma_gen [OF _ refl pra(2) ws xs p]) (use len in \<open>simp_all add: src pra(1)\<close>)
    then show ?thesis by (simp only: src pra(1) append_assoc) simp
  qed
qed

lemma skip_token_end:
  assumes tok: "directive_token ws0 tok"
    and pp: "pp = npos \<longleftrightarrow> tok = ''#include''"
    and ws: "blanks ws1"
    and src: "src = pre @ tok @ ws1"
    and len: "length src < npos"
  shows "skip_directive src pp (length pre) e = SBreak"
proof -
  from tok consider (inc) "tok = ''#include''"
    | (pra) "tok = ''#pragma'' @ ws0 @ ''include''" "blanks ws0"
    by (auto simp: directive_token_def)
  then show ?thesis
  proof cases
    case inc
    with pp have p: "pp = npos" by simp
    have "skip_directive (pre @ ''#include'' @ ws1) npos (length pre) e = SBreak"
      by (rule skip_include_end_gen [OF _ ws]) simp
    then show ?thesis by (simp only: src inc p)
  next
    case pra
    then have "tok \<noteq> ''#include''" by simp
    with pp have p: "pp \<noteq> npos" by simp
    have "skip_directive (pre @ ''#pragma'' @ ws0 @ ''include'' @ ws1) pp (length pre) e = SBreak"
      by (rule skip_pragma_end_gen [OF _ refl pra(2) ws p]) (use len in \<open>simp_all add: src pra(1)\<close>)
    then show ?thesis by (simp only: src pra(1) append_assoc)
  qed
qed

lemma iteration_on_directive:
  assumes lc: "loop_cond src pos ip = Some pi"
    and d: "directive_pos pi = length pre"
    and tok: "directive_token ws0 tok"
    and ws1: "blanks ws1" and span: "is_span span" and ws2: "blanks ws2"
    and rest: "ends_line rest"
    and src: "src = pre @ tok @ ws1 @ span @ ws2 @ rest"
    and len: "length src < npos"
  shows "body pf ld src pi =
           Continue (pre @ inserted_text pf ld (span_filename span (ws2 @ rest)) @ rest)
             (length pre + length (inserted_text pf ld (span_filename span (ws2 @ rest))))
             [span_filename span (ws2 @ rest)]"
proof -
  have pp: "fst pi = npos \<longleftrightarrow> tok = ''#include''"
    by (rule selected_token [OF lc d tok src])
  have sk: "skip_directive src (fst pi) (length pre) (find_first_of src [LF, CR] (length pre)) =
          FilenameAt (length pre + length (tok @ ws1))"
    by (rule skip_token [OF tok pp ws1 span_hd [OF span] src len])
  have nl: "no_newline (tok @ ws1)"
    using directive_token_no_newline [OF tok] blanks_no_newline [OF ws1] by simp
  have src': "src = pre @ (tok @ ws1) @ span @ ws2 @ rest"
    by (simp only: src append_assoc)
  show ?thesis by (rule body_on_line [OF d sk nl span ws2 rest src' len])
qed

lemma scan_on_directive:
  assumes lc: "loop_cond src pos ip = Some pi"
    and d: "directive_pos pi = length pre"
    and tok: "directive_token ws0 tok"
    and ws1: "blanks ws1" and span: "is_span span" and ws2: "blanks ws2"
    and rest: "ends_line rest"
    and src: "src = pre @ tok @ ws1 @ span @ ws2 @ rest"
    and len: "length src < npos"
    and fn: "fn = span_filename span (ws2 @ rest)"
    and m: "m = inserted_text pf ld fn"
  shows "scan pf ld src pos ip =
           (fst (scan pf ld ((pre @ m) @ rest) (length (pre @ m)) (snd pi)),
            fn # snd (scan pf ld ((pre @ m) @ rest) (length (pre @ m)) (snd pi)))"
proof -
  from iteration_on_directive [OF lc d tok ws1 span ws2 rest src len, of pf ld]
  have b: "body pf ld src pi = Continue (pre @ m @ rest) (length pre + length m) [fn]"
    unfolding fn m .
  from scan_step [OF lc b] show ?thesis by simp
qed

lemma body_empty_span:
  assumes pi: "directive_pos pi = length pre"
    and skip: "skip_directive src (fst pi) (length pre) (find_first_of src [LF, CR] (length pre)) =
                 FilenameAt (length pre + length front)"
    and front: "no_newline front"
    and rest: "ends_line rest" "rest \<noteq> []"
    and src: "src = pre @ front @ rest"
    and len: "length src < npos"
  shows "body pf ld src pi = Continue src (length pre + length front) []"
proof -
  let ?e = "find_first_of src [LF, CR] (length pre)"
  have "find_first_of (pre @ front @ rest) [LF, CR] (length pre) =
          (if rest = [] then npos else length pre + length front)"
    by (rule find_first_of_line [OF front rest(1)])
  then have e: "?e = length pre + length front" using rest(2) by (simp only: src) simp
  have ne: "length pre + length front \<noteq> npos"
    using len rest(2) by (cases rest) (simp_all add: src)
  have sl: "span_length src (length pre + length front) ?e = 0"
    unfolding e using ne by (simp add: span_length_def)
  show ?thesis
    unfolding body_def Let_def pi skip using sl by simp
qed

lemma iteration_on_empty_span:
  assumes lc: "loop_cond src pos ip = Some pi"
    and d: "directive_pos pi = length pre"
    and tok: "directive_token ws0 tok"
    and ws1: "blanks ws1"
    and rest: "ends_line rest"
    and src: "src = pre @ tok @ ws1 @ rest"
    and len: "length src < npos"
  shows "body pf ld src pi =
           (if rest = [] then Break else Continue src (length (pre @ tok @ ws1)) [])"
proof -
  have pp: "fst pi = npos \<longleftrightarrow> tok = ''#include''"
    by (rule selected_token [OF lc d tok src])
  show ?thesis
  proof (cases "rest = []")
    case True
    then have src': "src = pre @ tok @ ws1" using src by simp
    have "skip_directive src (fst pi) (length pre) (find_first_of src [LF, CR] (length pre)) = SBreak"
      by (rule skip_token_end [OF tok pp ws1 src' len])
    then have "body pf ld src pi = Break"
      unfolding body_def Let_def d by simp
    with True show ?thesis by simp
  next
    case False
    have sk: "skip_directive src (fst pi) (length pre) (find_first_of src [LF, CR] (length pre)) =
          FilenameAt (length pre + length (tok @ ws1))"
      by (rule skip_token [OF tok pp ws1 False line_start [OF rest False] src len])
    have nl: "no_newline (tok @ ws1)"
      using directive_token_no_newline [OF tok] blanks_no_newline [OF ws1] by simp
    have src': "src = pre @ (tok @ ws1) @ rest"
      by (simp only: src append_assoc)
    from body_empty_span [OF d sk nl rest False src' len, of pf ld] False
    show ?thesis by simp
  qed
qed

text \<open>
  An iteration that reaches a directive line replaces it: the inserted text stands behind
  the text before the line in the output, the loader is called with the file name, and
  when no \<open>#\<close> follows the line, the output ends with the rest of the buffer.
\<close>

lemma reached_directive_replaced:
  assumes "iterate pf ld n (source, 0, 0) = Some (src, pos, ip)"
    and "loop_cond src pos ip = Some pi" and "directive_pos pi = length pre"
    and "directive_token ws0 tok"
    and "blanks ws1" and "is_span span" and "blanks ws2" and "ends_line rest"
    and "src = pre @ tok @ ws1 @ span @ ws2 @ rest"
    and "length src < npos"
    and "fn = span_filename span (ws2 @ rest)"
    and "m = inserted_text pf ld fn"
  shows "prefix (pre @ m) (insertIncludes pf ld source)
         \<and> (\<exists>cs cs'. loader_calls pf ld source = cs @ fn # cs')
         \<and> (CHR ''#'' \<notin> set rest \<longrightarrow> insertIncludes pf ld source = pre @ m @ rest)"
proof -
  let ?st = "scan pf ld ((pre @ m) @ rest) (length (pre @ m)) (snd pi)"
  from scan_on_directive [OF assms(2-12)]
  have s: "scan pf ld src pos ip = (fst ?st, fn # snd ?st)" .
  have o: "insertIncludes pf ld source = fst ?st"
    using iterate_output(1) [OF assms(1)] s by simp
  have "prefix (take (length (pre @ m)) ((pre @ m) @ rest)) (fst ?st)"
    by (rule scan_prefix)
  then have p: "prefix (pre @ m) (insertIncludes pf ld source)"
    by (simp add: o)
  from iterate_output(2) [OF assms(1)] s
  have c: "\<exists>cs cs'. loader_calls pf ld source = cs @ fn # cs'" by auto
  have "insertIncludes pf ld source = pre @ m @ rest" if "CHR ''#'' \<notin> set rest"
    using scan_none_hash [OF that refl, of pf ld "pre @ m" "snd pi"] by (simp add: o)
  with p c show ?thesis by blast
qed

section \<open>Two loaders for the examples\<close>

text \<open>A loader that finds the one file \<open>a.glsl\<close>, and a loader that finds no file.\<close>

definition fragment_a :: "string \<Rightarrow> string option" where
  "fragment_a filename = (if filename = ''a.glsl'' then Some ''vec4 a;'' else None)"

definition no_fragments :: "string \<Rightarrow> string option" where
  "no_fragments filename = None"

section \<open>The order of the two searches\<close>

text \<open>
  C1. The claim is that an iteration processes the earlier of the next \<open>#pragma\<close> and
  the next \<open>#include\<close>. The code does not do so. In the source below \<open>#include\<close>
  stands at position 0 and \<open>#pragma\<close> at position 18, both ahead of the cursor 0. The
  search for \<open>#pragma\<close> succeeds, so line 165 never runs the search for \<open>#include\<close>,
  and the iteration processes position 18. The next iteration starts behind the inserted
  marker and finds nothing: the line \<open>#include "a.glsl"\<close> is still in the output,
  although the loader has that file, and the loader was asked for \<open>b.glsl\<close> only.
\<close>

theorem include_before_pragma_skipped:
  \<open>find_str (''#include "a.glsl"'' @ [LF] @ ''#pragma include b.glsl'') ''#include'' 0 = 0
   \<and> find_str (''#include "a.glsl"'' @ [LF] @ ''#pragma include b.glsl'') ''#pragma'' 0 = 18
   \<and> loop_cond (''#include "a.glsl"'' @ [LF] @ ''#pragma include b.glsl'') 0 0 = Some (18, 0)
   \<and> directive_pos (18, 0) = 18
   \<and> insertIncludes Other fragment_a (''#include "a.glsl"'' @ [LF] @ ''#pragma include b.glsl'')
       = ''#include "a.glsl"'' @ [LF] @ ''// Failed to load include code : b.glsl'' @ [LF]
   \<and> loader_calls Other fragment_a (''#include "a.glsl"'' @ [LF] @ ''#pragma include b.glsl'')
       = [''b.glsl'']\<close>
  by code_simp

section \<open>A file name with an opening quote only\<close>

text \<open>
  C2 (as amended). Take any iteration of \<open>insertIncludes\<close> on any source that processes
  a directive (either token) whose trimmed span starts with a double quote and does not
  end with one. Line 206 takes one character off the length and line 213 moves the start
  behind the quote: the file name, and the one string passed to the loader in this
  iteration, is the span without its first character; the last character of the name is
  kept. For the span \<open>"d.glsl\<close> the loader is asked for \<open>d.glsl\<close>.
\<close>

theorem missing_closing_quote:
  assumes "iterate pf ld n (source, 0, 0) = Some (src, pos, ip)"
    and "loop_cond src pos ip = Some pi" and "directive_pos pi = length pre"
    and "directive_token ws0 tok"
    and "blanks ws1" and "is_span span" and "blanks ws2" and "ends_line rest"
    and "src = pre @ tok @ ws1 @ span @ ws2 @ rest"
    and "length src < npos"
    and "hd span = DQUOTE" and "last span \<noteq> DQUOTE"
  shows "filename_of src (length (pre @ tok @ ws1)) (length span + length ws2) = tl span
         \<and> (\<exists>code' pos'. body pf ld src pi = Continue code' pos' [tl span])
         \<and> (\<exists>cs cs'. loader_calls pf ld source = cs @ tl span # cs')"
proof -
  have fn: "tl span = span_filename span (ws2 @ rest)"
    using assms(11,12) by (simp add: span_filename_def)
  have "filename_of ((pre @ tok @ ws1) @ span @ ws2 @ rest) (length (pre @ tok @ ws1))
          (length span + length ws2) = span_filename span (ws2 @ rest)"
    by (rule filename_of_span [OF assms(6,7) refl]) (use assms(9,10) in simp)
  then have f: "filename_of src (length (pre @ tok @ ws1)) (length span + length ws2) = tl span"
    unfolding fn by (simp only: assms(9) append_assoc)
  from iteration_on_directive [OF assms(2-10), of pf ld]
  have b: "\<exists>code' pos'. body pf ld src pi = Continue code' pos' [tl span]"
    unfolding fn by blast
  from scan_on_directive [OF assms(2-10) fn refl, of pf ld]
  have "\<exists>cs'. snd (scan pf ld src pos ip) = tl span # cs'" by simp
  with iterate_output(2) [OF assms(1)]
  have "\<exists>cs cs'. loader_calls pf ld source = cs @ tl span # cs'" by metis
  with f b show ?thesis by blast
qed

text \<open>
  The amended statement at a source in which a \<open>#version\<close> line and a \<open>#pragma once\<close>
  line stand before \<open>#include "d.glsl\<close>: the second iteration processes the directive.
\<close>

theorem missing_closing_quote_witness:
  \<open>filename_of ((''#version 450'' @ [LF] @ ''#pragma once'' @ [LF]) @ ''#include "d.glsl'') 35 7
     = ''d.glsl''
   \<and> (\<exists>cs cs'. loader_calls Other no_fragments
          ((''#version 450'' @ [LF] @ ''#pragma once'' @ [LF]) @ ''#include "d.glsl'')
        = cs @ ''d.glsl'' # cs')\<close>
proof -
  let ?pre = "''#version 450'' @ [LF] @ ''#pragma once'' @ [LF]"
  let ?span = \<open>''"d.glsl''\<close>
  let ?src = "?pre @ ''#include'' @ '' '' @ ?span @ [] @ []"
  have h1: "iterate Other no_fragments (Suc 0) (?src, 0, 0) = Some (?src, 25, 0)" by code_simp
  have h2: "loop_cond ?src 25 0 = Some (npos, 26)" by code_simp
  have h3: "directive_pos (npos, 26) = length ?pre" by code_simp
  have b: "blanks '' ''" "blanks []" by (simp_all add: blanks_def SPC_def)
  have h4: "directive_token [] ''#include''" by (simp add: directive_token_def)
  have h6: "is_span ?span"
    by (simp add: is_span_def no_newline_def SPC_def TAB_def LF_def CR_def)
  have h8: "ends_line []" by (simp add: ends_line_def)
  have h10: "length ?src < npos" by (simp add: npos_def)
  have h11: "hd ?span = DQUOTE" "last ?span \<noteq> DQUOTE" by (simp_all add: DQUOTE_def)
  from missing_closing_quote [OF h1 h2 h3 h4 b(1) h6 b(2) h8 refl h10 h11]
  show ?thesis by (simp add: eval_nat_numeral)
qed

text \<open>
  C2 as stated fails: for \<open>#include "d.glsl\<close> the loader is called with \<open>d.glsl\<close>,
  not with \<open>d.gls\<close>.
\<close>

theorem missing_closing_quote_keeps_name:
  \<open>loader_calls Other no_fragments ''#include "d.glsl'' = [''d.glsl'']
   \<and> loader_calls Other no_fragments ''#include "d.glsl'' \<noteq> [''d.gls'']\<close>
proof -
  have \<open>loader_calls Other no_fragments ''#include "d.glsl'' = [''d.glsl'']\<close>
    by code_simp
  then show ?thesis by simp
qed

section \<open>A fragment that is loaded\<close>

text \<open>
  C3. The claim is that a line \<open>#include "a.glsl"\<close>, for which the loader gives a
  fragment, is replaced in the output by the start marker line, the fragment and the end
  marker line. The code does so when an iteration reaches the line (lemma
  \<open>reached_directive_replaced\<close>), but not for every source. In the source below a
  \<open>#pragma\<close> line follows the directive: the first iteration processes the \<open>#pragma\<close>
  line, which is no include, moves the cursor to the end of the buffer, and the loop
  ends. The loader has \<open>a.glsl\<close> and is never called, and the output is the source,
  with the directive line and without any marker.
\<close>

theorem include_before_pragma_not_spliced:
  \<open>fragment_a ''a.glsl'' = Some ''vec4 a;''
   \<and> insertIncludes Other fragment_a (''#include "a.glsl"'' @ [LF] @ ''#pragma once'')
       = ''#include "a.glsl"'' @ [LF] @ ''#pragma once''
   \<and> loader_calls Other fragment_a (''#include "a.glsl"'' @ [LF] @ ''#pragma once'') = []\<close>
proof -
  have 1: "fragment_a ''a.glsl'' = Some ''vec4 a;''" by (simp add: fragment_a_def)
  have 2: \<open>insertIncludes Other fragment_a (''#include "a.glsl"'' @ [LF] @ ''#pragma once'')
       = ''#include "a.glsl"'' @ [LF] @ ''#pragma once''\<close> by code_simp
  have 3: \<open>loader_calls Other fragment_a (''#include "a.glsl"'' @ [LF] @ ''#pragma once'') = []\<close>
    by code_simp
  from 1 2 3 show ?thesis by blast
qed

section \<open>A fragment that cannot be loaded\<close>

text \<open>
  C4. The claim is that the one directive of a source, naming a file that the loader does
  not find, is replaced by one failure marker line. The code does so when an iteration
  reaches the line (lemma \<open>reached_directive_replaced\<close>), but not for every source. In
  the source below the only directive is \<open>#include b.glsl\<close>, and a \<open>#pragma once\<close>
  line follows it: the first iteration processes the \<open>#pragma\<close> line and the loop ends.
  The directive line is not removed, no failure marker is written and the loader is never
  called.
\<close>

theorem unloadable_include_before_pragma_kept:
  "no_fragments ''b.glsl'' = None
   \<and> insertIncludes Other no_fragments (''#include b.glsl'' @ [LF] @ ''#pragma once'')
       = ''#include b.glsl'' @ [LF] @ ''#pragma once''
   \<and> loader_calls Other no_fragments (''#include b.glsl'' @ [LF] @ ''#pragma once'') = []"
proof -
  have 1: "no_fragments ''b.glsl'' = None" by (simp add: no_fragments_def)
  have 2: "insertIncludes Other no_fragments (''#include b.glsl'' @ [LF] @ ''#pragma once'')
       = ''#include b.glsl'' @ [LF] @ ''#pragma once''" by code_simp
  have 3: "loader_calls Other no_fragments (''#include b.glsl'' @ [LF] @ ''#pragma once'') = []"
    by code_simp
  from 1 2 3 show ?thesis by blast
qed

section \<open>Sources without a directive\<close>








section \<open>A directive without a file name\<close>

text \<open>
  C9. Take any iteration of \<open>insertIncludes\<close> on any source that processes a directive
  (either token) followed by blanks only up to the end of its line. The iteration changes
  nothing in the buffer and calls no loader. When a line terminator follows, the loop
  continues with the cursor on that terminator, behind the directive; when the buffer
  ends there, the loop is left and nothing remains to scan. In both cases the directive
  line, with all the text before it, is in the output.
\<close>

theorem empty_filename_skipped:
  assumes "iterate pf ld n (source, 0, 0) = Some (src, pos, ip)"
    and "loop_cond src pos ip = Some pi" and "directive_pos pi = length pre"
    and "directive_token ws0 tok"
    and "blanks ws1" and "ends_line rest"
    and "src = pre @ tok @ ws1 @ rest"
    and "length src < npos"
  shows "body pf ld src pi =
           (if rest = [] then Break else Continue src (length (pre @ tok @ ws1)) [])
         \<and> scan pf ld src pos ip =
             (if rest = [] then (src, [])
              else scan pf ld src (length (pre @ tok @ ws1)) (snd pi))
         \<and> prefix (pre @ tok @ ws1) (insertIncludes pf ld source)"
proof -
  have b: "body pf ld src pi =
           (if rest = [] then Break else Continue src (length (pre @ tok @ ws1)) [])"
    by (rule iteration_on_empty_span [OF assms(2-8)])
  have t: "take (length (pre @ tok @ ws1)) src = pre @ tok @ ws1"
    by (simp add: assms(7))
  have o: "insertIncludes pf ld source = fst (scan pf ld src pos ip)"
    by (rule iterate_output(1) [OF assms(1)])
  show ?thesis
  proof (cases "rest = []")
    case True
    with b have "body pf ld src pi = Break" by simp
    from scan_break [OF assms(2) this] have s: "scan pf ld src pos ip = (src, [])" .
    have "prefix (pre @ tok @ ws1) (insertIncludes pf ld source)"
      unfolding o s using True by (simp add: assms(7))
    with b s True show ?thesis by simp
  next
    case False
    with b have c: "body pf ld src pi = Continue src (length (pre @ tok @ ws1)) []" by simp
    from scan_step [OF assms(2) c]
    have s: "scan pf ld src pos ip = scan pf ld src (length (pre @ tok @ ws1)) (snd pi)" by simp
    from scan_prefix [of "length (pre @ tok @ ws1)" src pf ld "snd pi"]
    have "prefix (pre @ tok @ ws1) (insertIncludes pf ld source)"
      unfolding t o s .
    with b s False show ?thesis by simp
  qed
qed

text \<open>
  An \<open>#include\<close> without a file name, behind a \<open>#version\<close> line and a
  \<open>#pragma once\<close> line and before an \<open>#include\<close> that has a name.
\<close>

theorem empty_filename_skipped_witness:
  "scan Other fragment_a
     ((''#version 450'' @ [LF] @ ''#pragma once'' @ [LF]) @ ''#include  '' @ [LF] @ ''#include a.glsl'')
     25 0
   = scan Other fragment_a
     ((''#version 450'' @ [LF] @ ''#pragma once'' @ [LF]) @ ''#include  '' @ [LF] @ ''#include a.glsl'')
     36 26
   \<and> prefix ((''#version 450'' @ [LF] @ ''#pragma once'' @ [LF]) @ ''#include  '')
        (insertIncludes Other fragment_a
          ((''#version 450'' @ [LF] @ ''#pragma once'' @ [LF]) @ ''#include  '' @ [LF] @
           ''#include a.glsl''))"
proof -
  let ?pre = "''#version 450'' @ [LF] @ ''#pragma once'' @ [LF]"
  let ?rest = "[LF] @ ''#include a.glsl''"
  let ?src = "?pre @ ''#include'' @ ''  '' @ ?rest"
  have h1: "iterate Other fragment_a (Suc 0) (?src, 0, 0) = Some (?src, 25, 0)" by code_simp
  have h2: "loop_cond ?src 25 0 = Some (npos, 26)" by code_simp
  have h3: "directive_pos (npos, 26) = length ?pre" by code_simp
  have h4: "directive_token [] ''#include''" by (simp add: directive_token_def)
  have b: "blanks ''  ''" by (simp add: blanks_def SPC_def)
  have h6: "ends_line ?rest" by (simp add: ends_line_def)
  have h8: "length ?src < npos" by (simp add: npos_def)
  from empty_filename_skipped [OF h1 h2 h3 h4 b h6 refl h8]
  show ?thesis by (simp add: eval_nat_numeral)
qed

section \<open>A span that is one quote\<close>

text \<open>
  C10. Take any iteration of \<open>insertIncludes\<close> on any source that processes a
  directive (either token) whose trimmed span is the single character \<open>"\<close>. The
  trimmed length is 1, the first and the last character of the span are that quote, and
  line 210 subtracts 2: the length wraps to \<open>npos\<close>, the largest \<open>size_type\<close>. The
  file name is then all of the buffer behind the quote, across the line terminator, and
  it is the string passed to the loader in this iteration.
\<close>

theorem lone_quote_takes_rest:
  assumes "iterate pf ld n (source, 0, 0) = Some (src, pos, ip)"
    and "loop_cond src pos ip = Some pi" and "directive_pos pi = length pre"
    and "directive_token ws0 tok"
    and "blanks ws1" and "blanks ws2" and "ends_line rest"
    and "src = pre @ tok @ ws1 @ [DQUOTE] @ ws2 @ rest"
    and "length src < npos"
  shows "prune src (length (pre @ tok @ ws1)) (1 + length ws2) = 1
         \<and> sub_sz 1 2 = npos
         \<and> unquote src (length (pre @ tok @ ws1)) 1 = (length (pre @ tok @ ws1) + 1, npos)
         \<and> substr src (length (pre @ tok @ ws1) + 1) npos = ws2 @ rest
         \<and> (\<exists>code' pos'. body pf ld src pi = Continue code' pos' [ws2 @ rest])
         \<and> (\<exists>cs cs'. loader_calls pf ld source = cs @ (ws2 @ rest) # cs')"
proof -
  let ?q = "length (pre @ tok @ ws1)"
  have span: "is_span [DQUOTE]"
    by (simp add: is_span_def no_newline_def DQUOTE_def SPC_def TAB_def LF_def CR_def)
  have src: "src = (pre @ tok @ ws1) @ [DQUOTE] @ ws2 @ rest"
    by (simp only: assms(8) append_assoc)
  have fn: "ws2 @ rest = span_filename [DQUOTE] (ws2 @ rest)"
    by (simp add: span_filename_def)
  have "prune ((pre @ tok @ ws1) @ [DQUOTE] @ ws2 @ rest) ?q (length [DQUOTE] + length ws2) =
          length [DQUOTE]"
    by (rule prune_blanks [OF assms(6)]) (simp_all add: DQUOTE_def SPC_def TAB_def)
  then have 1: "prune src ?q (1 + length ws2) = 1" unfolding src by simp
  have "char_at ((pre @ tok @ ws1) @ [DQUOTE] @ (ws2 @ rest)) ?q = hd [DQUOTE]"
    by (rule char_at_hd) simp_all
  then have "char_at src ?q = DQUOTE" unfolding src by simp
  then have 3: "unquote src ?q 1 = (?q + 1, npos)" by (rule unquote_single)
  have "drop (?q + 1) (((pre @ tok @ ws1) @ [DQUOTE]) @ ws2 @ rest) = ws2 @ rest"
    by (rule drop_exact) simp
  then have d: "drop (?q + 1) src = ws2 @ rest" unfolding src by simp
  have "length (ws2 @ rest) \<le> npos" using assms(9) by (simp add: assms(8))
  then have 4: "substr src (?q + 1) npos = ws2 @ rest"
    unfolding substr_def d by (rule take_all)
  from iteration_on_directive [OF assms(2-5) span assms(6-9), of pf ld]
  have 5: "\<exists>code' pos'. body pf ld src pi = Continue code' pos' [ws2 @ rest]"
    unfolding fn [symmetric] by blast
  from scan_on_directive [OF assms(2-5) span assms(6-9) fn refl, of pf ld]
  have "\<exists>cs'. snd (scan pf ld src pos ip) = (ws2 @ rest) # cs'" by simp
  with iterate_output(2) [OF assms(1)]
  have 6: "\<exists>cs cs'. loader_calls pf ld source = cs @ (ws2 @ rest) # cs'" by metis
  from 1 sub_sz_wrap 3 4 5 6 show ?thesis by blast
qed

text \<open>
  A lone quote behind a \<open>#version\<close> line and a \<open>#pragma once\<close> line, with one more
  line after it.
\<close>

theorem lone_quote_takes_rest_witness:
  \<open>unquote ((''#version 450'' @ [LF] @ ''#pragma once'' @ [LF]) @ ''#include "'' @ [LF] @ ''x y'')
     35 1 = (36, npos)
   \<and> (\<exists>cs cs'. loader_calls Other no_fragments
          ((''#version 450'' @ [LF] @ ''#pragma once'' @ [LF]) @ ''#include "'' @ [LF] @ ''x y'')
        = cs @ ([LF] @ ''x y'') # cs')\<close>
proof -
  let ?pre = "''#version 450'' @ [LF] @ ''#pragma once'' @ [LF]"
  let ?rest = "[LF] @ ''x y''"
  let ?src = "?pre @ ''#include'' @ '' '' @ [DQUOTE] @ [] @ ?rest"
  have h1: "iterate Other no_fragments (Suc 0) (?src, 0, 0) = Some (?src, 25, 0)" by code_simp
  have h2: "loop_cond ?src 25 0 = Some (npos, 26)" by code_simp
  have h3: "directive_pos (npos, 26) = length ?pre" by code_simp
  have h4: "directive_token [] ''#include''" by (simp add: directive_token_def)
  have b: "blanks '' ''" "blanks []" by (simp_all add: blanks_def SPC_def)
  have h7: "ends_line ?rest" by (simp add: ends_line_def)
  have h9: "length ?src < npos" by (simp add: npos_def)
  from lone_quote_takes_rest [OF h1 h2 h3 h4 b(1) b(2) h7 refl h9]
  show ?thesis by (simp add: DQUOTE_def eval_nat_numeral)
qed

section \<open>ShaderModule::compile\<close>

text \<open>
  The Vulkan types that the constructor of \<open>Implementation\<close> uses: a \<open>VkResult\<close> is a
  number, \<open>VK_SUCCESS\<close> is 0, devices and shader module handles are numbers.
\<close>

type_synonym VkResult = int

definition VK_SUCCESS :: VkResult where
  "VK_SUCCESS = 0"

type_synonym Device = nat
type_synonym VkShaderModule = nat

text \<open>
  The fields of \<open>VkShaderModuleCreateInfo\<close> that depend on the module; \<open>sType\<close> and
  \<open>pNext\<close> are constants.
\<close>

record VkShaderModuleCreateInfo =
  codeSize :: nat
  pCode :: "32 word list"

text \<open>\<open>vsg::Exception\<close>: a message and the result code.\<close>

datatype Exception = Exception (message: string) (result: VkResult)

text \<open>\<open>ShaderModule::Implementation\<close>, with its fields \<open>_device\<close> and \<open>_shaderModule\<close>.\<close>

record Implementation =
  impl_device :: Device
  impl_shaderModule :: VkShaderModule

text \<open>
  Modelled from the spec: the fields of \<open>ShaderCompileSettings\<close> and \<open>ShaderModule\<close>
  are declared in headers that are not part of the source file. Their names are those
  that the source reads and writes; the two enumerations \<open>language\<close> and \<open>target\<close> are
  kept as the integers that \<open>writeValue<int>\<close> writes; \<open>defines_seq\<close> is the field
  \<open>defines\<close>; \<open>implementation\<close> is the field \<open>_implementation\<close>, one slot for each
  device identifier, \<open>None\<close> for a null pointer.
\<close>

record ShaderCompileSettings =
  vulkanVersion :: "32 word"
  clientInputVersion :: int
  language :: int
  defaultVersion :: int
  target :: int
  forwardCompatible :: bool
  defines_seq :: "string list"

record ShaderModule =
  source :: string
  hints :: "ShaderCompileSettings option"
  code :: "32 word list"
  implementation :: "nat \<Rightarrow> Implementation option"

text \<open>The two fields of \<open>Context\<close> that \<open>compile\<close> reads.\<close>

record Context =
  deviceID :: nat
  device :: Device

text \<open>
  \<open>vkCreateShaderModule\<close> is the creation capability. Every call is recorded, with its
  device and create info, in the list of the calls made so far; the driver answers with a
  result code and a handle, and its answer may depend on the calls before.
\<close>

type_synonym vk_call = "Device \<times> VkShaderModuleCreateInfo"

type_synonym driver = "vk_call list \<Rightarrow> Device \<Rightarrow> VkShaderModuleCreateInfo \<Rightarrow> VkResult \<times> VkShaderModule"

text \<open>Lines 130 to 134: the create info of a module.\<close>

definition createInfo_of :: "ShaderModule \<Rightarrow> VkShaderModuleCreateInfo" where
  "createInfo_of shaderModule =
     \<lparr>codeSize = (length (code shaderModule) * 4) mod 2 ^ 64, pCode = code shaderModule\<rparr>"

text \<open>
  Lines 127 to 140, \<open>Implementation::create(device, shaderModule)\<close>: the call of
  \<open>vkCreateShaderModule\<close>, and the exception when its result is not \<open>VK_SUCCESS\<close>.
\<close>

definition Implementation_create ::
  "driver \<Rightarrow> Device \<Rightarrow> ShaderModule \<Rightarrow> vk_call list \<Rightarrow> (Exception + Implementation) \<times> vk_call list"
where
  "Implementation_create vkCreateShaderModule dev shaderModule calls =
     (let createInfo = createInfo_of shaderModule;
          r = vkCreateShaderModule calls dev createInfo;
          calls = calls @ [(dev, createInfo)]
      in if fst r \<noteq> VK_SUCCESS
         then (Inl (Exception
                 ''Error: vsg::ShaderModule::create(...) failed to create shader module.'' (fst r)),
               calls)
         else (Inr \<lparr>impl_device = dev, impl_shaderModule = snd r\<rparr>, calls))"

text \<open>
  Lines 122 to 125, \<open>ShaderModule::compile(context)\<close>, on the module and the calls made
  so far. The result is the exception that leaves the function, if any, the module and
  the calls. When the constructor throws, the assignment to the slot does not take place.
\<close>

definition compile ::
  "driver \<Rightarrow> Context \<Rightarrow> ShaderModule \<times> vk_call list \<Rightarrow>
     Exception option \<times> ShaderModule \<times> vk_call list"
where
  "compile vk context st =
     (case st of (m, calls) \<Rightarrow>
        if implementation m (deviceID context) = None then
          (case Implementation_create vk (device context) m calls of
             (Inl e, calls') \<Rightarrow> (Some e, m, calls')
           | (Inr impl, calls') \<Rightarrow>
               (None, m\<lparr>implementation := (implementation m)(deviceID context \<mapsto> impl)\<rparr>, calls'))
        else (None, m, calls))"

text \<open>A sequence of calls of \<open>compile\<close> whose exceptions the caller catches.\<close>

fun compile_all :: "driver \<Rightarrow> Context list \<Rightarrow> ShaderModule \<times> vk_call list \<Rightarrow> ShaderModule \<times> vk_call list" where
  "compile_all vk [] st = st"
| "compile_all vk (c # cs) st = compile_all vk cs (snd (compile vk c st))"

lemma compile_present:
  "implementation m (deviceID c) = Some h \<Longrightarrow> compile vk c (m, calls) = (None, m, calls)"
  by (simp add: compile_def)

lemma compile_absent_ok:
  assumes "implementation m (deviceID c) = None"
    and "fst (vk calls (device c) (createInfo_of m)) = VK_SUCCESS"
  shows "compile vk c (m, calls) =
           (None,
            m\<lparr>implementation := (implementation m)(deviceID c \<mapsto>
                \<lparr>impl_device = device c,
                 impl_shaderModule = snd (vk calls (device c) (createInfo_of m))\<rparr>)\<rparr>,
            calls @ [(device c, createInfo_of m)])"
  using assms by (simp add: compile_def Implementation_create_def Let_def)

lemma compile_absent_fail:
  assumes "implementation m (deviceID c) = None"
    and "fst (vk calls (device c) (createInfo_of m)) \<noteq> VK_SUCCESS"
  shows "compile vk c (m, calls) =
           (Some (Exception
                 ''Error: vsg::ShaderModule::create(...) failed to create shader module.''
                 (fst (vk calls (device c) (createInfo_of m)))),
            m,
            calls @ [(device c, createInfo_of m)])"
  using assms by (simp add: compile_def Implementation_create_def Let_def)

lemma compile_absent_calls:
  assumes "implementation m (deviceID c) = None"
  shows "snd (snd (compile vk c (m, calls))) = calls @ [(device c, createInfo_of m)]"
  using assms by (simp add: compile_def Implementation_create_def Let_def)

lemma compile_keeps:
  "implementation m d = Some h \<Longrightarrow> implementation (fst (snd (compile vk c (m, calls)))) d = Some h"
  by (auto simp: compile_def Implementation_create_def Let_def split: prod.splits sum.splits)

lemma compile_other:
  "d \<noteq> deviceID c \<Longrightarrow> implementation (fst (snd (compile vk c (m, calls)))) d = implementation m d"
  by (auto simp: compile_def Implementation_create_def Let_def split: prod.splits sum.splits)

lemma compile_all_keeps:
  "implementation (fst st) d = Some h \<Longrightarrow> implementation (fst (compile_all vk cs st)) d = Some h"
proof (induction cs arbitrary: st)
  case Nil
  then show ?case by simp
next
  case (Cons c cs)
  obtain m calls where st: "st = (m, calls)" by (cases st)
  from Cons.prems compile_keeps [of m d h vk c calls]
  have "implementation (fst (snd (compile vk c st))) d = Some h" by (simp add: st)
  from Cons.IH [OF this] show ?case by simp
qed

text \<open>
  C5. For every module, driver and context, \<open>compile\<close> is a no-op on a slot that is
  present: module and calls are unchanged. No sequence of calls of \<open>compile\<close> replaces
  a slot that is present, and a call for one device identifier leaves the slots of all
  others as they are. So, with the slots 0 and 1 absent and a driver that succeeds in the
  two calls made: the first \<open>compile\<close> for device identifier 0 calls
  \<open>vkCreateShaderModule\<close> once and fills slot 0; the second changes nothing and makes no
  call; a \<open>compile\<close> for device identifier 1 after that makes the second call and fills
  slot 1, and slot 0 is as before.
\<close>

theorem compile_creates_once:
  assumes "deviceID c0 = 0" and "deviceID c1 = 1"
    and "implementation m 0 = None" and "implementation m 1 = None"
    and "fst (vk calls (device c0) (createInfo_of m)) = VK_SUCCESS"
    and "fst (vk (calls @ [(device c0, createInfo_of m)]) (device c1) (createInfo_of m)) = VK_SUCCESS"
    and "s1 = snd (compile vk c0 (m, calls))"
    and "s2 = snd (compile vk c0 s1)"
    and "s3 = snd (compile vk c1 s2)"
  shows "(\<forall>c m calls. implementation m (deviceID c) \<noteq> None \<longrightarrow>
            compile vk c (m, calls) = (None, m, calls))
         \<and> (\<forall>cs st d h. implementation (fst st) d = Some h \<longrightarrow>
               implementation (fst (compile_all vk cs st)) d = Some h)
         \<and> (\<forall>c m calls d. d \<noteq> deviceID c \<longrightarrow>
               implementation (fst (snd (compile vk c (m, calls)))) d = implementation m d)
         \<and> snd s1 = calls @ [(device c0, createInfo_of m)]
         \<and> implementation (fst s1) 0 \<noteq> None \<and> implementation (fst s1) 1 = None
         \<and> compile vk c0 s1 = (None, s1)
         \<and> s2 = s1
         \<and> snd s3 = calls @ [(device c0, createInfo_of m), (device c1, createInfo_of m)]
         \<and> implementation (fst s3) 0 = implementation (fst s1) 0
         \<and> implementation (fst s3) 1 \<noteq> None"
proof -
  have ok1: "fst (vk calls (device c0) (createInfo_of m)) = VK_SUCCESS"
    by (rule assms(5))
  from compile_absent_ok [of m c0 vk calls, OF _ ok1] assms(1,3)
  have c1: "compile vk c0 (m, calls) =
           (None,
            m\<lparr>implementation := (implementation m)(0 \<mapsto>
                \<lparr>impl_device = device c0,
                 impl_shaderModule = snd (vk calls (device c0) (createInfo_of m))\<rparr>)\<rparr>,
            calls @ [(device c0, createInfo_of m)])" by simp
  obtain m1 calls1 where s1: "s1 = (m1, calls1)" by (cases s1)
  from c1 s1 assms(7) have m1: "m1 = m\<lparr>implementation := (implementation m)(0 \<mapsto>
                \<lparr>impl_device = device c0,
                 impl_shaderModule = snd (vk calls (device c0) (createInfo_of m))\<rparr>)\<rparr>"
    and calls1: "calls1 = calls @ [(device c0, createInfo_of m)]" by simp_all
  have p0: "implementation m1 0 \<noteq> None" and a1: "implementation m1 1 = None"
    using assms(4) by (simp_all add: m1)
  from p0 obtain h where h: "implementation m1 (deviceID c0) = Some h"
    using assms(1) by auto
  have c2: "compile vk c0 s1 = (None, s1)"
    unfolding s1 using compile_present [OF h] by simp
  then have s2: "s2 = s1" using assms(8) by simp
  have ci: "createInfo_of m1 = createInfo_of m" by (simp add: createInfo_of_def m1)
  have ok3: "fst (vk calls1 (device c1) (createInfo_of m1)) = VK_SUCCESS"
    using assms(6) by (simp add: calls1 ci)
  from compile_absent_ok [of m1 c1 vk calls1, OF _ ok3] a1 assms(2)
  have c3: "compile vk c1 (m1, calls1) =
           (None,
            m1\<lparr>implementation := (implementation m1)(1 \<mapsto>
                \<lparr>impl_device = device c1,
                 impl_shaderModule = snd (vk calls1 (device c1) (createInfo_of m1))\<rparr>)\<rparr>,
            calls1 @ [(device c1, createInfo_of m1)])" by simp
  from c3 assms(9) s2 s1
  have s3: "snd s3 = calls @ [(device c0, createInfo_of m), (device c1, createInfo_of m)]"
    "implementation (fst s3) 0 = implementation m1 0" "implementation (fst s3) 1 \<noteq> None"
    by (simp_all add: calls1 ci)
  have g1: "\<forall>c m calls. implementation m (deviceID c) \<noteq> None \<longrightarrow>
            compile vk c (m, calls) = (None, m, calls)"
    using compile_present by blast
  have g2: "\<forall>cs st d h. implementation (fst st) d = Some h \<longrightarrow>
               implementation (fst (compile_all vk cs st)) d = Some h"
    using compile_all_keeps by blast
  have g3: "\<forall>c m calls d. d \<noteq> deviceID c \<longrightarrow>
               implementation (fst (snd (compile vk c (m, calls)))) d = implementation m d"
    using compile_other by blast
  from g1 g2 g3 s1 calls1 p0 a1 c2 s2 s3 show ?thesis by simp
qed

text \<open>
  C6. When \<open>vkCreateShaderModule\<close> does not return \<open>VK_SUCCESS\<close> in a \<open>compile\<close> for
  an absent slot, \<open>compile\<close> throws an \<open>Exception\<close> that carries that result code, the
  module is unchanged, so the slot is still absent, and the call is recorded. A further
  \<open>compile\<close> for the same device identifier calls \<open>vkCreateShaderModule\<close> again.
\<close>

theorem compile_failure_retries:
  assumes "implementation m (deviceID c) = None"
    and "fst (vk calls (device c) (createInfo_of m)) \<noteq> VK_SUCCESS"
  shows "\<exists>e. compile vk c (m, calls) = (Some e, m, calls @ [(device c, createInfo_of m)])
           \<and> result e = fst (vk calls (device c) (createInfo_of m))
           \<and> implementation m (deviceID c) = None
           \<and> snd (snd (compile vk c (m, calls @ [(device c, createInfo_of m)]))) =
               calls @ [(device c, createInfo_of m), (device c, createInfo_of m)]"
  using compile_absent_fail [where vk = vk and calls = calls, OF assms]
    compile_absent_calls [OF assms(1), of vk "calls @ [(device c, createInfo_of m)]"] assms(1)
  by simp

text \<open>
  A driver that always succeeds, a driver that always fails with
  \<open>VK_ERROR_INITIALIZATION_FAILED\<close>, a module with one word of code and no slot, and
  two contexts.
\<close>

definition driver_ok :: driver where
  "driver_ok calls dev createInfo = (VK_SUCCESS, length calls)"

definition driver_fail :: driver where
  "driver_fail calls dev createInfo = (- 3, 0)"

definition module0 :: ShaderModule where
  "module0 = \<lparr>source = [], hints = None, code = [0x07230203], implementation = (\<lambda>d. None)\<rparr>"

definition context0 :: Context where
  "context0 = \<lparr>deviceID = 0, device = 10\<rparr>"

definition context1 :: Context where
  "context1 = \<lparr>deviceID = 1, device = 11\<rparr>"

text \<open>Two calls for device identifier 0 and one for device identifier 1.\<close>

theorem compile_creates_once_witness:
  "length (snd (snd (compile driver_ok context0 (module0, [])))) = 1
   \<and> snd (compile driver_ok context0 (snd (compile driver_ok context0 (module0, []))))
       = snd (compile driver_ok context0 (module0, []))
   \<and> length (snd (snd (compile driver_ok context1
         (snd (compile driver_ok context0 (snd (compile driver_ok context0 (module0, [])))))))) = 2"
proof -
  have h: "deviceID context0 = 0" "deviceID context1 = 1"
    "implementation module0 0 = None" "implementation module0 1 = None"
    "fst (driver_ok [] (device context0) (createInfo_of module0)) = VK_SUCCESS"
    "fst (driver_ok ([] @ [(device context0, createInfo_of module0)]) (device context1)
           (createInfo_of module0)) = VK_SUCCESS"
    by (simp_all add: context0_def context1_def module0_def driver_ok_def)
  let ?s1 = "snd (compile driver_ok context0 (module0, []))"
  let ?s2 = "snd (compile driver_ok context0 ?s1)"
  let ?s3 = "snd (compile driver_ok context1 ?s2)"
  from compile_creates_once [where vk = driver_ok and calls = "[]", OF h refl refl refl]
  have 1: "snd ?s1 = [] @ [(device context0, createInfo_of module0)]"
    and 2: "?s2 = ?s1"
    and 3: "snd ?s3 = [] @ [(device context0, createInfo_of module0),
                           (device context1, createInfo_of module0)]"
    by blast+
  from 1 have "length (snd ?s1) = 1" by simp
  moreover from 3 have "length (snd ?s3) = 2" by simp
  ultimately show ?thesis using 2 by blast
qed

text \<open>A failing driver, called twice.\<close>

theorem compile_failure_retries_witness:
  "\<exists>e. compile driver_fail context0 (module0, []) =
          (Some e, module0, [(device context0, createInfo_of module0)])
       \<and> result e = - 3
       \<and> snd (snd (compile driver_fail context0 (module0, [(device context0, createInfo_of module0)])))
           = [(device context0, createInfo_of module0), (device context0, createInfo_of module0)]"
proof -
  have h: "implementation module0 (deviceID context0) = None"
    "fst (driver_fail [] (device context0) (createInfo_of module0)) \<noteq> VK_SUCCESS"
    by (simp_all add: module0_def driver_fail_def VK_SUCCESS_def)
  from compile_failure_retries [where vk = driver_fail and calls = "[]", OF h]
  show ?thesis by (auto simp: driver_fail_def)
qed

end
